theory Spec2Isabelle
  imports Main "HOL-Library.Word"
begin

section \<open>PackBits: the data model\<close>

text \<open>
  The repository holds three generations of the module. All of them work on
  \<^verbatim>\<open>Uint8Array\<close> values, modelled as lists of 8-bit words:
  \<^item> \<^verbatim>\<open>src/mod.ts\<close>: the boundary-only encoder \<open>compress\<close>, the decoder
    \<open>decompress\<close> and its size pass \<open>calculateDecompressedSize\<close>;
  \<^item> the first module of \<^verbatim>\<open>part_000\<close>: the context-aware encoder, here
    \<open>compress_ctx\<close> (its decoder is, line for line, the one of \<^verbatim>\<open>src/mod.ts\<close>);
  \<^item> the second module of \<^verbatim>\<open>part_000\<close>: the stack-based encoder with an optional
    caller-supplied buffer, here \<open>compress_buf\<close>, the decoder \<open>decompress_buf\<close> and its
    size pass \<open>calculateSizeDecompressed\<close>.

  \<^verbatim>\<open>validateInput\<close> rejects what is not a \<^verbatim>\<open>Uint8Array\<close>; the type \<open>byte list\<close>
  has no such inhabitant, so that check has no branch in the model. The messages of
  \<^verbatim>\<open>PackBitsError\<close> are dropped: the errors of the size passes are \<open>Truncated\<close>, the
  one of the buffer check is \<open>BufferTooSmall\<close>, and \<open>RangeError\<close> is the exception of
  \<^verbatim>\<open>TypedArray.prototype.set\<close> when the source does not fit.
\<close>

type_synonym byte = "8 word"

datatype error = Truncated | BufferTooSmall | RangeError

definition MAX_RUN_LENGTH :: nat where
  "MAX_RUN_LENGTH = 128"

definition COPY_THRESHOLD :: nat where
  "COPY_THRESHOLD = 32"

text \<open>
  A read \<^verbatim>\<open>data[i]\<close> whose value is stored into a \<^verbatim>\<open>Uint8Array\<close>: out of range the
  read is \<^verbatim>\<open>undefined\<close>, which is stored as 0.
\<close>

definition u8_at :: "byte list \<Rightarrow> nat \<Rightarrow> byte" where
  "u8_at data i = (if i < length data then data ! i else 0)"

text \<open>
  \<^verbatim>\<open>result[writeIndex++] = v\<close> on the pair of the array and its write index. A write
  past the end of a typed array is ignored, which is what \<open>list_update\<close> does.
\<close>

definition put :: "byte list \<times> nat \<Rightarrow> byte \<Rightarrow> byte list \<times> nat" where
  "put s v = (case s of (result, writeIndex) \<Rightarrow> (result[writeIndex := v], writeIndex + 1))"

text \<open>
  The loop \<^verbatim>\<open>for (let j = 0; j < literalCount; j += 1) result[writeIndex++] = data[literalStart + j]\<close>
  of both list-free encoders.
\<close>

function writeLiteral :: "byte list \<Rightarrow> nat \<Rightarrow> nat \<Rightarrow> nat \<Rightarrow> byte list \<times> nat \<Rightarrow> byte list \<times> nat" where
  "writeLiteral data literalStart literalCount j s =
     (if j < literalCount
      then writeLiteral data literalStart literalCount (j + 1) (put s (u8_at data (literalStart + j)))
      else s)"
  by pat_completeness auto
termination
  by (relation "measure (\<lambda>(data, literalStart, literalCount, j, s). literalCount - j)") auto

declare writeLiteral.simps [simp del]

section \<open>The encoder of src/mod.ts\<close>

text \<open>
  The first inner loop of \<^verbatim>\<open>compress\<close>: it moves \<open>readIndex\<close> over repeated bytes.
  \<^verbatim>\<open>readIndex < data.length - 1\<close> is written \<open>readIndex + 1 < length data\<close>, the same
  condition on naturals.
\<close>

function scanRun :: "byte list \<Rightarrow> nat \<Rightarrow> nat \<Rightarrow> nat" where
  "scanRun data runStart readIndex =
     (if readIndex + 1 < length data \<and> data ! readIndex = data ! (readIndex + 1)
         \<and> readIndex - runStart < MAX_RUN_LENGTH - 1
      then scanRun data runStart (readIndex + 1)
      else readIndex)"
  by pat_completeness auto
termination
  by (relation "measure (\<lambda>(data, runStart, readIndex). length data - readIndex)") auto

declare scanRun.simps [simp del]

text \<open>The second inner loop: it collects literal bytes and returns \<open>(readIndex, literalCount)\<close>.\<close>

function collectLiteral :: "byte list \<Rightarrow> nat \<Rightarrow> nat \<Rightarrow> nat \<times> nat" where
  "collectLiteral data readIndex literalCount =
     (if readIndex < length data \<and> literalCount < MAX_RUN_LENGTH
         \<and> (readIndex + 1 = length data \<or> data ! readIndex \<noteq> data ! (readIndex + 1))
      then collectLiteral data (readIndex + 1) (literalCount + 1)
      else (readIndex, literalCount))"
  by pat_completeness auto
termination
  by (relation "measure (\<lambda>(data, readIndex, literalCount). length data - readIndex)") auto

declare collectLiteral.simps [simp del]

lemma scanRun_ge: "readIndex \<le> scanRun data runStart readIndex"
proof (induction data runStart readIndex rule: scanRun.induct)
  case (1 data runStart readIndex)
  show ?case
  proof (cases "readIndex + 1 < length data \<and> data ! readIndex = data ! (readIndex + 1)
         \<and> readIndex - runStart < MAX_RUN_LENGTH - 1")
    case True
    with 1 have "readIndex + 1 \<le> scanRun data runStart (readIndex + 1)" by simp
    with True show ?thesis by (subst scanRun.simps) simp
  next
    case False
    then show ?thesis by (subst scanRun.simps) auto
  qed
qed

lemma collectLiteral_ge: "readIndex \<le> fst (collectLiteral data readIndex literalCount)"
proof (induction data readIndex literalCount rule: collectLiteral.induct)
  case (1 data readIndex literalCount)
  show ?case
  proof (cases "readIndex < length data \<and> literalCount < MAX_RUN_LENGTH
         \<and> (readIndex + 1 = length data \<or> data ! readIndex \<noteq> data ! (readIndex + 1))")
    case True
    with 1 have "readIndex + 1 \<le> fst (collectLiteral data (readIndex + 1) (literalCount + 1))"
      by simp
    with True show ?thesis by (subst collectLiteral.simps) simp
  next
    case False
    then show ?thesis by (subst collectLiteral.simps) auto
  qed
qed

lemma collectLiteral_progress:
  assumes "readIndex < length data" and "scanRun data readIndex readIndex = readIndex"
  shows "readIndex < fst (collectLiteral data readIndex 0)"
proof -
  from assms(2) have stop: "\<not> (readIndex + 1 < length data \<and> data ! readIndex = data ! (readIndex + 1))"
  proof (rule contrapos_pn)
    assume c: "readIndex + 1 < length data \<and> data ! readIndex = data ! (readIndex + 1)"
    have "readIndex + 1 \<le> scanRun data readIndex (readIndex + 1)" by (rule scanRun_ge)
    moreover from c have "scanRun data readIndex readIndex = scanRun data readIndex (readIndex + 1)"
      by (subst scanRun.simps) (simp add: MAX_RUN_LENGTH_def)
    ultimately show "scanRun data readIndex readIndex \<noteq> readIndex" by simp
  qed
  with assms(1) have go: "readIndex + 1 = length data \<or> data ! readIndex \<noteq> data ! (readIndex + 1)"
    by (cases "readIndex + 1 = length data") auto
  have "readIndex + 1 \<le> fst (collectLiteral data (readIndex + 1) 1)" by (rule collectLiteral_ge)
  moreover from assms(1) go
  have "collectLiteral data readIndex 0 = collectLiteral data (readIndex + 1) 1"
    by (subst collectLiteral.simps) (simp add: MAX_RUN_LENGTH_def)
  ultimately show ?thesis by simp
qed

text \<open>
  The outer loop of \<^verbatim>\<open>compress\<close>. The headers are stored into a \<^verbatim>\<open>Uint8Array\<close>,
  hence reduced modulo 256, which \<open>of_int\<close> into \<open>8 word\<close> does.
\<close>

function compress_loop :: "byte list \<Rightarrow> nat \<Rightarrow> byte list \<times> nat \<Rightarrow> byte list \<times> nat" where
  "compress_loop data readIndex s =
     (if readIndex < length data then
        (let runStart = readIndex;
             readIndex1 = scanRun data runStart readIndex;
             runLength = readIndex1 - runStart + 1
         in if runLength > 1 then
              compress_loop data (readIndex1 + 1)
                (put (put s (of_int (257 - int runLength))) (u8_at data runStart))
            else
              (let literalStart = readIndex1;
                   rc = collectLiteral data readIndex1 0;
                   readIndex2 = fst rc;
                   literalCount = snd rc
               in compress_loop data readIndex2
                    (writeLiteral data literalStart literalCount 0
                       (put s (of_int (int literalCount - 1))))))
      else s)"
  by pat_completeness auto
termination
proof (relation "measure (\<lambda>(data, readIndex, s). length data - readIndex)", goal_cases)
  case 1
  show ?case by simp
next
  case (2 data readIndex s runStart readIndex1 runLength)
  have "readIndex \<le> scanRun data readIndex readIndex" by (rule scanRun_ge)
  with 2 show ?case by simp
next
  case (3 data readIndex s runStart readIndex1 runLength literalStart rc readIndex2 literalCount)
  have ge: "readIndex \<le> scanRun data readIndex readIndex" by (rule scanRun_ge)
  with 3 have "scanRun data readIndex readIndex = readIndex" by simp
  with 3 have "readIndex < fst (collectLiteral data readIndex 0)"
    by (simp add: collectLiteral_progress)
  with 3 \<open>scanRun data readIndex readIndex = readIndex\<close> show ?case by simp
qed

declare compress_loop.simps [simp del]

text \<open>
  \<^verbatim>\<open>compress\<close>: the result array has \<open>2 * data.length\<close> cells, and
  \<^verbatim>\<open>result.slice(0, writeIndex)\<close> is \<open>take\<close>.
\<close>

definition compress :: "byte list \<Rightarrow> byte list" where
  "compress data =
     (case compress_loop data 0 (replicate (2 * length data) 0, 0) of
        (result, writeIndex) \<Rightarrow> take writeIndex result)"

section \<open>The decoder of src/mod.ts\<close>

text \<open>
  \<^verbatim>\<open>calculateDecompressedSize\<close>: the size pass. \<open>count = data[index++]\<close> is read
  under the loop guard; the check \<open>index >= data.length\<close> follows at once, before the
  header is looked at. The variable \<^verbatim>\<open>size\<close> is \<open>sz\<close> here.
\<close>

function calculateDecompressedSize_loop :: "byte list \<Rightarrow> nat \<Rightarrow> nat \<Rightarrow> error + nat" where
  "calculateDecompressedSize_loop data index sz =
     (if index < length data then
        (let count = unat (data ! index);
             index1 = index + 1
         in if index1 \<ge> length data then Inl Truncated
            else if count < MAX_RUN_LENGTH then
              (let runLength = count + 1
               in if index1 + runLength > length data then Inl Truncated
                  else calculateDecompressedSize_loop data (index1 + runLength) (sz + runLength))
            else if count > MAX_RUN_LENGTH then
              calculateDecompressedSize_loop data (index1 + 1) (sz + (257 - count))
            else calculateDecompressedSize_loop data index1 sz)
      else Inr sz)"
  by pat_completeness auto
termination
  by (relation "measure (\<lambda>(data, index, sz). length data - index)") auto

declare calculateDecompressedSize_loop.simps [simp del]

definition calculateDecompressedSize :: "byte list \<Rightarrow> error + nat" where
  "calculateDecompressedSize data = calculateDecompressedSize_loop data 0 0"

text \<open>
  The loop of a repeated run: \<^verbatim>\<open>result[writeIndex + j] = data[readIndex]\<close> for
  \<open>j < runLength\<close>; the caller then adds \<open>runLength\<close> to \<open>writeIndex\<close>.
\<close>

function writeRepeated :: "byte list \<Rightarrow> nat \<Rightarrow> nat \<Rightarrow> nat \<Rightarrow> nat \<Rightarrow> byte list \<Rightarrow> byte list" where
  "writeRepeated data readIndex writeIndex runLength j result =
     (if j < runLength
      then writeRepeated data readIndex writeIndex runLength (j + 1)
             (result[writeIndex + j := u8_at data readIndex])
      else result)"
  by pat_completeness auto
termination
  by (relation "measure (\<lambda>(data, readIndex, writeIndex, runLength, j, result). runLength - j)") auto

declare writeRepeated.simps [simp del]

text \<open>
  The expansion pass of \<^verbatim>\<open>decompress\<close>. The literal loop
  \<^verbatim>\<open>result[writeIndex++] = data[readIndex + j]\<close> is the loop \<open>writeLiteral\<close>.
\<close>

function decompress_loop :: "byte list \<Rightarrow> nat \<Rightarrow> byte list \<times> nat \<Rightarrow> byte list" where
  "decompress_loop data readIndex s =
     (if readIndex < length data then
        (let count = unat (data ! readIndex);
             readIndex1 = readIndex + 1
         in if count < MAX_RUN_LENGTH then
              (let runLength = count + 1
               in decompress_loop data (readIndex1 + runLength)
                    (writeLiteral data readIndex1 runLength 0 s))
            else if count > MAX_RUN_LENGTH then
              (let runLength = 257 - count
               in decompress_loop data (readIndex1 + 1)
                    (writeRepeated data readIndex1 (snd s) runLength 0 (fst s), snd s + runLength))
            else decompress_loop data readIndex1 s)
      else fst s)"
  by pat_completeness auto
termination
  by (relation "measure (\<lambda>(data, readIndex, s). length data - readIndex)") auto

declare decompress_loop.simps [simp del]

definition decompress :: "byte list \<Rightarrow> error + byte list" where
  "decompress data =
     (case calculateDecompressedSize data of
        Inl e \<Rightarrow> Inl e
      | Inr resultSize \<Rightarrow> Inr (decompress_loop data 0 (replicate resultSize 0, 0)))"

section \<open>The context-aware encoder (first module of part_000)\<close>

text \<open>
  The loop that counts the repeated bytes at \<open>readIndex\<close>; the source has it twice,
  in the same words, started at \<open>repeatCount = 1\<close>.
\<close>

function countRepeat :: "byte list \<Rightarrow> nat \<Rightarrow> nat \<Rightarrow> nat" where
  "countRepeat data readIndex repeatCount =
     (if readIndex + repeatCount < length data
         \<and> data ! (readIndex + repeatCount) = data ! readIndex
         \<and> repeatCount < MAX_RUN_LENGTH
      then countRepeat data readIndex (repeatCount + 1)
      else repeatCount)"
  by pat_completeness auto
termination
  by (relation "measure (\<lambda>(data, readIndex, repeatCount). length data - (readIndex + repeatCount))") auto

declare countRepeat.simps [simp del]

lemma countRepeat_ge: "repeatCount \<le> countRepeat data readIndex repeatCount"
proof (induction data readIndex repeatCount rule: countRepeat.induct)
  case (1 data readIndex repeatCount)
  show ?case
  proof (cases "readIndex + repeatCount < length data
         \<and> data ! (readIndex + repeatCount) = data ! readIndex
         \<and> repeatCount < MAX_RUN_LENGTH")
    case True
    with 1 have "repeatCount + 1 \<le> countRepeat data readIndex (repeatCount + 1)" by simp
    with True show ?thesis by (subst countRepeat.simps) simp
  next
    case False
    then show ?thesis by (subst countRepeat.simps) auto
  qed
qed

text \<open>
  The inner loop that collects the literal run and absorbs short repeats; it returns
  \<open>(readIndex, literalCount)\<close>, and leaves by \<^verbatim>\<open>break\<close> when a repeat run is to
  start.
\<close>

function absorbLiteral :: "byte list \<Rightarrow> nat \<Rightarrow> nat \<Rightarrow> nat \<times> nat" where
  "absorbLiteral data readIndex literalCount =
     (if readIndex < length data \<and> literalCount < MAX_RUN_LENGTH then
        (let repeatCount = countRepeat data readIndex 1;
             isAtLiteralStart = (literalCount = 0);
             shouldStartRepeatRun = (repeatCount \<ge> 3 \<or> (repeatCount = 2 \<and> isAtLiteralStart))
         in if shouldStartRepeatRun then (readIndex, literalCount)
            else
              (let bytesToAbsorb = min repeatCount (MAX_RUN_LENGTH - literalCount)
               in absorbLiteral data (readIndex + bytesToAbsorb) (literalCount + bytesToAbsorb)))
      else (readIndex, literalCount))"
  by pat_completeness auto
termination
proof (relation "measure (\<lambda>(data, readIndex, literalCount). length data - readIndex)", goal_cases)
  case 1
  show ?case by simp
next
  case (2 data readIndex literalCount repeatCount isAtLiteralStart shouldStartRepeatRun bytesToAbsorb)
  have "1 \<le> countRepeat data readIndex 1" by (rule countRepeat_ge)
  with 2 show ?case by (auto simp: min_def MAX_RUN_LENGTH_def)
qed

declare absorbLiteral.simps [simp del]

lemma absorbLiteral_diff:
  "fst (absorbLiteral data readIndex literalCount) - readIndex
     = snd (absorbLiteral data readIndex literalCount) - literalCount
   \<and> readIndex \<le> fst (absorbLiteral data readIndex literalCount)
   \<and> literalCount \<le> snd (absorbLiteral data readIndex literalCount)"
proof (induction data readIndex literalCount rule: absorbLiteral.induct)
  case (1 data readIndex literalCount)
  let ?rc = "countRepeat data readIndex 1"
  define b where "b = min ?rc (MAX_RUN_LENGTH - literalCount)"
  define p where "p = absorbLiteral data (readIndex + b) (literalCount + b)"
  show ?case
  proof (cases "readIndex < length data \<and> literalCount < MAX_RUN_LENGTH
                \<and> \<not> (?rc \<ge> 3 \<or> (?rc = 2 \<and> literalCount = 0))")
    case True
    then have eq: "absorbLiteral data readIndex literalCount = p"
      unfolding p_def b_def by (subst absorbLiteral.simps) (auto simp: Let_def)
    have "fst p - (readIndex + b) = snd p - (literalCount + b)
          \<and> readIndex + b \<le> fst p \<and> literalCount + b \<le> snd p"
      unfolding p_def b_def by (rule 1 [OF _ refl refl refl _ refl]) (use True in auto)
    then show ?thesis unfolding eq by arith
  next
    case False
    then have "absorbLiteral data readIndex literalCount = (readIndex, literalCount)"
      by (subst absorbLiteral.simps) (auto simp: Let_def)
    then show ?thesis by simp
  qed
qed

text \<open>The outer loop of the context-aware \<^verbatim>\<open>compress\<close>.\<close>

function compress_ctx_loop :: "byte list \<Rightarrow> nat \<Rightarrow> byte list \<times> nat \<Rightarrow> byte list \<times> nat" where
  "compress_ctx_loop data readIndex s =
     (if readIndex < length data then
        (let literalStart = readIndex;
             rc = absorbLiteral data readIndex 0;
             readIndex1 = fst rc;
             literalCount = snd rc;
             s1 = (if literalCount > 0
                   then writeLiteral data literalStart literalCount 0
                          (put s (of_int (int literalCount - 1)))
                   else s)
         in if readIndex1 < length data \<and> literalCount < MAX_RUN_LENGTH then
              (let repeatCount = countRepeat data readIndex1 1
               in compress_ctx_loop data (readIndex1 + repeatCount)
                    (put (put s1 (of_int (257 - int repeatCount))) (u8_at data readIndex1)))
            else compress_ctx_loop data readIndex1 s1)
      else s)"
  by pat_completeness auto
termination
proof (relation "measure (\<lambda>(data, readIndex, s). length data - readIndex)", goal_cases)
  case 1
  show ?case by simp
next
  case (2 data readIndex s literalStart rc readIndex1 literalCount s1 repeatCount)
  have "1 \<le> countRepeat data (fst (absorbLiteral data readIndex 0)) 1" by (rule countRepeat_ge)
  moreover have "readIndex \<le> fst (absorbLiteral data readIndex 0)"
    using absorbLiteral_diff [of data readIndex 0] by simp
  ultimately show ?case using 2 by auto
next
  case (3 data readIndex s literalStart rc readIndex1 literalCount s1)
  have d: "fst (absorbLiteral data readIndex 0) - readIndex = snd (absorbLiteral data readIndex 0) - 0"
    and g: "readIndex \<le> fst (absorbLiteral data readIndex 0)"
    using absorbLiteral_diff [of data readIndex 0] by simp_all
  from 3 have "\<not> fst (absorbLiteral data readIndex 0) < length data
               \<or> \<not> snd (absorbLiteral data readIndex 0) < MAX_RUN_LENGTH" by simp
  then show ?case
  proof
    assume "\<not> fst (absorbLiteral data readIndex 0) < length data"
    with 3 show ?thesis by simp
  next
    assume "\<not> snd (absorbLiteral data readIndex 0) < MAX_RUN_LENGTH"
    then have "0 < snd (absorbLiteral data readIndex 0)" by (simp add: MAX_RUN_LENGTH_def)
    with d g have "readIndex < fst (absorbLiteral data readIndex 0)" by simp
    with 3 show ?thesis by simp
  qed
qed

declare compress_ctx_loop.simps [simp del]

definition compress_ctx :: "byte list \<Rightarrow> byte list" where
  "compress_ctx data =
     (case compress_ctx_loop data 0 (replicate (2 * length data) 0, 0) of
        (result, writeIndex) \<Rightarrow> take writeIndex result)"

section \<open>The decoder of the stack-based module (second module of part_000)\<close>

text \<open>
  \<^verbatim>\<open>calculateSizeDecompressed\<close>: here each kind of header has its own check of the
  payload, and the header 128 has none.
\<close>

function calculateSizeDecompressed_loop :: "byte list \<Rightarrow> nat \<Rightarrow> nat \<Rightarrow> error + nat" where
  "calculateSizeDecompressed_loop data i sz =
     (if i < length data then
        (let n = unat (data ! i);
             i1 = i + 1
         in if n > 128 then
              (if i1 \<ge> length data then Inl Truncated
               else calculateSizeDecompressed_loop data (i1 + 1) (sz + (257 - n)))
            else if n < 128 then
              (let runLength = n + 1
               in if i1 + runLength > length data then Inl Truncated
                  else calculateSizeDecompressed_loop data (i1 + runLength) (sz + runLength))
            else calculateSizeDecompressed_loop data i1 sz)
      else Inr sz)"
  by pat_completeness auto
termination
  by (relation "measure (\<lambda>(data, i, sz). length data - i)") auto

declare calculateSizeDecompressed_loop.simps [simp del]

definition calculateSizeDecompressed :: "byte list \<Rightarrow> error + nat" where
  "calculateSizeDecompressed data = calculateSizeDecompressed_loop data 0 0"

text \<open>
  The typed-array primitives the module calls. \<^verbatim>\<open>subarray(b, e)\<close> and
  \<^verbatim>\<open>fill(v, start, end)\<close> clamp at the length of the array;
  \<^verbatim>\<open>set(source, offset)\<close> throws a \<^verbatim>\<open>RangeError\<close> when the source does not fit.
\<close>

definition subarray :: "byte list \<Rightarrow> nat \<Rightarrow> nat \<Rightarrow> byte list" where
  "subarray a b e = take (e - b) (drop b a)"

definition ta_fill :: "byte list \<Rightarrow> byte \<Rightarrow> nat \<Rightarrow> nat \<Rightarrow> byte list" where
  "ta_fill a v start end =
     take start a @ replicate (min end (length a) - start) v @ drop (max start (min end (length a))) a"

definition ta_set :: "byte list \<Rightarrow> byte list \<Rightarrow> nat \<Rightarrow> error + byte list" where
  "ta_set target source offset =
     (if length source + offset > length target then Inl RangeError
      else Inr (take offset target @ source @ drop (offset + length source) target))"

text \<open>The loop \<^verbatim>\<open>for (let i = 0; i < runLength; i += 1) result[iWrite++] = byte\<close>.\<close>

function putRepeated :: "byte \<Rightarrow> nat \<Rightarrow> nat \<Rightarrow> byte list \<times> nat \<Rightarrow> byte list \<times> nat" where
  "putRepeated byte runLength i s =
     (if i < runLength then putRepeated byte runLength (i + 1) (put s byte) else s)"
  by pat_completeness auto
termination
  by (relation "measure (\<lambda>(byte, runLength, i, s). runLength - i)") auto

declare putRepeated.simps [simp del]

text \<open>
  The expansion pass of the second \<^verbatim>\<open>decompress\<close>. Its short literal loop
  \<^verbatim>\<open>result[iWrite++] = data[iRead++]\<close> writes \<open>data[iRead + i]\<close> for \<open>i < runLength\<close>
  and leaves \<open>iRead\<close> advanced by \<open>runLength\<close>: the loop \<open>writeLiteral\<close>.
\<close>

function decompress_buf_loop :: "byte list \<Rightarrow> nat \<Rightarrow> byte list \<times> nat \<Rightarrow> error + byte list" where
  "decompress_buf_loop data iRead s =
     (if iRead < length data then
        (let n = unat (data ! iRead);
             iRead1 = iRead + 1
         in if n > 128 then
              (let runLength = 257 - n;
                   byte = u8_at data iRead1;
                   iRead2 = iRead1 + 1
               in if runLength \<ge> COPY_THRESHOLD then
                    decompress_buf_loop data iRead2
                      (ta_fill (fst s) byte (snd s) (snd s + runLength), snd s + runLength)
                  else decompress_buf_loop data iRead2 (putRepeated byte runLength 0 s))
            else if n < 128 then
              (let runLength = n + 1
               in if runLength \<ge> COPY_THRESHOLD then
                    (case ta_set (fst s) (subarray data iRead1 (iRead1 + runLength)) (snd s) of
                       Inl e \<Rightarrow> Inl e
                     | Inr result \<Rightarrow>
                         decompress_buf_loop data (iRead1 + runLength) (result, snd s + runLength))
                  else decompress_buf_loop data (iRead1 + runLength)
                         (writeLiteral data iRead1 runLength 0 s))
            else decompress_buf_loop data iRead1 s)
      else Inr (fst s))"
  by pat_completeness auto
termination
  by (relation "measure (\<lambda>(data, iRead, s). length data - iRead)") auto

declare decompress_buf_loop.simps [simp del]

definition decompress_buf :: "byte list \<Rightarrow> error + byte list" where
  "decompress_buf data =
     (case calculateSizeDecompressed data of
        Inl e \<Rightarrow> Inl e
      | Inr resultSize \<Rightarrow> decompress_buf_loop data 0 (replicate resultSize 0, 0))"

section \<open>The stack-based encoder (second module of part_000)\<close>

text \<open>
  The first phase pushes one header per run on a stack that grows downwards from the end
  of the buffer. Its state: the buffer, the index \<open>iStack\<close> of the next free stack cell
  and \<open>countLastLiteral\<close>, the length of the literal run on top of the stack (0 when
  the top is not a literal run that may still grow). An index below 0 is outside a typed
  array: such a write is ignored and such a read is \<^verbatim>\<open>undefined\<close>.
\<close>

record collect =
  buffer :: "byte list"
  iStack :: int
  countLastLiteral :: nat

definition ta_store :: "byte list \<Rightarrow> int \<Rightarrow> int \<Rightarrow> byte list" where
  "ta_store a i v = (if 0 \<le> i then a[nat i := of_int v] else a)"

definition ta_read :: "byte list \<Rightarrow> int \<Rightarrow> byte option" where
  "ta_read a i = (if 0 \<le> i \<and> i < int (length a) then Some (a ! nat i) else None)"

text \<open>\<^verbatim>\<open>buffer[iStack--] = n\<close> followed by \<^verbatim>\<open>countLastLiteral = c\<close>.\<close>

definition push :: "int \<Rightarrow> nat \<Rightarrow> collect \<Rightarrow> collect" where
  "push n c st =
     \<lparr>buffer = ta_store (buffer st) (iStack st) n, iStack = iStack st - 1, countLastLiteral = c\<rparr>"

text \<open>\<^verbatim>\<open>countLastLiteral += k; buffer[iStack + 1] = countLastLiteral - 1\<close>.\<close>

definition extendLast :: "nat \<Rightarrow> collect \<Rightarrow> collect" where
  "extendLast k st =
     st\<lparr>buffer := ta_store (buffer st) (iStack st + 1) (int (countLastLiteral st + k) - 1),
        countLastLiteral := countLastLiteral st + k\<rparr>"

text \<open>
  The four ways a run is closed. \<open>closeReplicate\<close>: a replicate run with header \<open>n\<close>
  (twice in the source, "Try merge R2 into previous L"). \<open>closeLiteral\<close>: a literal run
  of \<open>n + 1\<close> bytes (at the end of the input and when the run is full).
  \<open>closeLiteralBefore\<close>: a literal run of \<open>n\<close> bytes that stops before a repeat.
  \<open>closeLastByte\<close>: the last byte of the input, alone.
\<close>

definition closeReplicate :: "nat \<Rightarrow> collect \<Rightarrow> collect" where
  "closeReplicate n st =
     (if n = 255 \<and> countLastLiteral st > 0 \<and> countLastLiteral st + 2 \<le> 128
      then extendLast 2 st
      else push (int n) 0 st)"

definition closeLiteral :: "nat \<Rightarrow> collect \<Rightarrow> collect" where
  "closeLiteral n st =
     (if countLastLiteral st > 0 \<and> countLastLiteral st + n + 1 \<le> 128
      then extendLast (n + 1) st
      else push (int n) (n + 1) st)"

definition closeLiteralBefore :: "nat \<Rightarrow> collect \<Rightarrow> collect" where
  "closeLiteralBefore n st =
     (if countLastLiteral st > 0 \<and> countLastLiteral st + n \<le> 128
      then extendLast n st
      else push (int n - 1) n st)"

definition closeLastByte :: "collect \<Rightarrow> collect" where
  "closeLastByte st =
     (if countLastLiteral st > 0 \<and> countLastLiteral st + 1 \<le> 128
      then extendLast 1 st
      else push 0 (countLastLiteral st) st)"

text \<open>
  The control points of the labelled loop \<^verbatim>\<open>loop: while (true)\<close>:
  \<^item> \<open>LoopTop anchor crnt iRead\<close>: the head of the loop body;
  \<^item> \<open>InReplicate anchor n iRead\<close>: the head of the body of the first \<^verbatim>\<open>do\<close> loop;
  \<^item> \<open>InLiteral prev n iRead\<close>: the head of the body of the second \<^verbatim>\<open>do\<close> loop;
  \<^item> \<open>AfterRun iRead\<close>: behind the \<^verbatim>\<open>if\<close>/\<^verbatim>\<open>else\<close>, at \<^verbatim>\<open>if (iRead >= data.length) break\<close>;
  \<^item> \<open>AfterAnchor anchor iRead\<close>: behind the block labelled \<^verbatim>\<open>gotoBreakAfterAnchor\<close>.
  \<^verbatim>\<open>break loop\<close> returns the state; \<^verbatim>\<open>continue loop\<close> goes to \<open>LoopTop\<close>.
\<close>

datatype point =
    LoopTop byte byte nat
  | InReplicate byte nat nat
  | InLiteral byte nat nat
  | AfterRun nat
  | AfterAnchor byte nat

fun point_iRead :: "point \<Rightarrow> nat" where
  "point_iRead (LoopTop anchor crnt iRead) = iRead"
| "point_iRead (InReplicate anchor n iRead) = iRead"
| "point_iRead (InLiteral prev n iRead) = iRead"
| "point_iRead (AfterRun iRead) = iRead"
| "point_iRead (AfterAnchor anchor iRead) = iRead"

fun point_rank :: "point \<Rightarrow> nat" where
  "point_rank (LoopTop anchor crnt iRead) = 1"
| "point_rank p = 0"

function collectRuns :: "byte list \<Rightarrow> point \<Rightarrow> collect \<Rightarrow> collect" where
  "collectRuns data (LoopTop anchor crnt iRead) st =
     (if anchor = crnt then collectRuns data (InReplicate anchor 255 iRead) st
      else collectRuns data (InLiteral crnt 1 iRead) st)"
| "collectRuns data (InReplicate anchor n iRead) st =
     (if iRead \<ge> length data then closeReplicate n st
      else
        (let crnt = data ! iRead;
             iRead1 = iRead + 1
         in if crnt \<noteq> anchor then
              collectRuns data (AfterAnchor crnt iRead1) (closeReplicate n st)
            else
              (let n1 = n - 1
               in if n1 > 129 then collectRuns data (InReplicate anchor n1 iRead1) st
                  else collectRuns data (AfterRun iRead1) (push (int n1) 0 st))))"
| "collectRuns data (InLiteral prev n iRead) st =
     (if iRead \<ge> length data then closeLiteral n st
      else
        (let crnt = data ! iRead;
             iRead1 = iRead + 1
         in if crnt = prev then
              collectRuns data (LoopTop prev crnt iRead1) (closeLiteralBefore n st)
            else
              (let n1 = n + 1
               in if n1 < 127 then collectRuns data (InLiteral crnt n1 iRead1) st
                  else collectRuns data (AfterRun iRead1) (closeLiteral n1 st))))"
| "collectRuns data (AfterRun iRead) st =
     (if iRead \<ge> length data then st
      else collectRuns data (AfterAnchor (data ! iRead) (iRead + 1)) st)"
| "collectRuns data (AfterAnchor anchor iRead) st =
     (if iRead \<ge> length data then closeLastByte st
      else collectRuns data (LoopTop anchor (data ! iRead) (iRead + 1)) st)"
  by pat_completeness auto
termination
  by (relation "measure (\<lambda>(data, p, st). 2 * (length data - point_iRead p) + point_rank p)") auto

declare collectRuns.simps [simp del]

text \<open>
  The second phase reads the stack from the end of the buffer down to \<open>iStack\<close> and
  writes the runs from the start of the same buffer.
\<close>

function writeRuns :: "byte list \<Rightarrow> int \<Rightarrow> nat \<Rightarrow> int \<Rightarrow> byte list \<times> nat \<Rightarrow> error + byte list \<times> nat" where
  "writeRuns data iStackEnd iRead iStackRead s =
     (if iStackRead > iStackEnd then
        (case ta_read (fst s) iStackRead of
           None \<Rightarrow> writeRuns data iStackEnd iRead (iStackRead - 1) s
         | Some h \<Rightarrow>
             (let n = unat h
              in if n > 128 then
                   writeRuns data iStackEnd (iRead + (257 - n)) (iStackRead - 1)
                     (put (put s h) (u8_at data iRead))
                 else if n < 128 then
                   (let runLength = n + 1;
                        s1 = put s h
                    in if runLength \<ge> COPY_THRESHOLD then
                         (case ta_set (fst s1) (subarray data iRead (iRead + runLength)) (snd s1) of
                            Inl e \<Rightarrow> Inl e
                          | Inr b \<Rightarrow>
                              writeRuns data iStackEnd (iRead + runLength) (iStackRead - 1)
                                (b, snd s1 + runLength))
                       else writeRuns data iStackEnd (iRead + runLength) (iStackRead - 1)
                              (writeLiteral data iRead runLength 0 s1))
                 else writeRuns data iStackEnd iRead (iStackRead - 1) s))
      else Inr s)"
  by pat_completeness auto
termination
  by (relation "measure (\<lambda>(data, iStackEnd, iRead, iStackRead, s). nat (iStackRead - iStackEnd))") auto

declare writeRuns.simps [simp del]

text \<open>
  \<^verbatim>\<open>compress(data, buffer?)\<close>. \<^verbatim>\<open>Math.ceil(1.5*data.length)\<close> is exact in double
  precision for every length a typed array can have, and equals \<open>(3 * n + 1) div 2\<close>.
  The result is a view of the buffer, \<^verbatim>\<open>buffer.subarray(0, iWrite)\<close>; its value is
  \<open>take iWrite\<close> of it.
\<close>

definition minBufferLength :: "byte list \<Rightarrow> nat" where
  "minBufferLength data = (3 * length data + 1) div 2"

definition compress_buf :: "byte list \<Rightarrow> byte list option \<Rightarrow> error + byte list" where
  "compress_buf data buffer_opt =
     (case (case buffer_opt of
              None \<Rightarrow> Inr (replicate (minBufferLength data) 0)
            | Some b \<Rightarrow> if length b < minBufferLength data then Inl BufferTooSmall else Inr b) of
        Inl e \<Rightarrow> Inl e
      | Inr buf \<Rightarrow>
          if length data = 0 then Inr (take 0 buf)
          else if length data = 1 then Inr (take 2 (buf[0 := 0, 1 := data ! 0]))
          else
            (let st = collectRuns data (LoopTop (data ! 0) (data ! 1) 2)
                        \<lparr>buffer = buf, iStack = int (length buf) - 1, countLastLiteral = 0\<rparr>
             in case writeRuns data (iStack st) 0 (int (length buf) - 1) (buffer st, 0) of
                  Inl e \<Rightarrow> Inl e
                | Inr s \<Rightarrow> Inr (take (snd s) (fst s))))"

section \<open>The wire format\<close>

text \<open>
  The reference reading of a packed sequence, header by header: a header below 128 is
  followed by \<open>header + 1\<close> literal bytes, a header above 128 by one byte repeated
  \<open>257 - header\<close> times, the header 128 by nothing. \<open>unpack False\<close> is that reading;
  \<open>unpack True\<close> also refuses a header that is the last byte of the input, whatever its
  value, as the size pass of \<^verbatim>\<open>src/mod.ts\<close> does. \<open>truncatedRun\<close> says that some
  header declares a run whose payload is not fully present, and \<open>headers\<close> lists the
  header bytes.
\<close>

definition payloadLength :: "byte \<Rightarrow> nat" where
  "payloadLength h = (if unat h < 128 then unat h + 1 else if unat h > 128 then 1 else 0)"

fun unpack :: "bool \<Rightarrow> byte list \<Rightarrow> byte list option" where
  "unpack strict [] = Some []"
| "unpack strict (h # rest) =
     (if strict \<and> rest = [] then None
      else if unat h < 128 then
        (if length rest < unat h + 1 then None
         else map_option (\<lambda>out. take (unat h + 1) rest @ out) (unpack strict (drop (unat h + 1) rest)))
      else if unat h > 128 then
        (if rest = [] then None
         else map_option (\<lambda>out. replicate (257 - unat h) (hd rest) @ out) (unpack strict (tl rest)))
      else unpack strict rest)"

fun truncatedRun :: "byte list \<Rightarrow> bool" where
  "truncatedRun [] = False"
| "truncatedRun (h # rest) =
     (if unat h < 128 then length rest < unat h + 1 \<or> truncatedRun (drop (unat h + 1) rest)
      else if unat h > 128 then rest = [] \<or> truncatedRun (tl rest)
      else truncatedRun rest)"

fun headers :: "byte list \<Rightarrow> byte list" where
  "headers [] = []"
| "headers (h # rest) = h # headers (drop (payloadLength h) rest)"

section \<open>Sequential writes\<close>

text \<open>
  Every loop that writes at the write index and advances it is a left fold of \<open>put\<close>
  over the bytes written.
\<close>

lemma put_pair: "put (res, w) v = (res[w := v], w + 1)"
  by (simp add: put_def)

lemma snd_foldl_put: "snd (foldl put s vs) = snd s + length vs"
  by (induction vs arbitrary: s) (auto simp: put_def split: prod.splits)

lemma length_foldl_put: "length (fst (foldl put s vs)) = length (fst s)"
  by (induction vs arbitrary: s) (auto simp: put_def split: prod.splits)

lemma fst_foldl_put:
  "w + length vs \<le> length res \<Longrightarrow>
   fst (foldl put (res, w) vs) = take w res @ vs @ drop (w + length vs) res"
proof (induction vs arbitrary: res w)
  case Nil
  then show ?case by simp
next
  case (Cons v vs)
  then have "fst (foldl put (res[w := v], w + 1) vs)
             = take (w + 1) (res[w := v]) @ vs @ drop (w + 1 + length vs) (res[w := v])"
    by (intro Cons.IH) simp
  moreover from Cons.prems have "take (w + 1) (res[w := v]) = take w res @ [v]"
    by (simp add: take_Suc_conv_app_nth)
  ultimately show ?case by (simp add: put_pair)
qed

lemma writeLiteral_foldl:
  "writeLiteral data start count j s = foldl put s (map (u8_at data) [start + j ..< start + count])"
proof (induction data start count j s rule: writeLiteral.induct)
  case (1 data start count j s)
  show ?case
  proof (cases "j < count")
    case True
    then have "[start + j ..< start + count] = (start + j) # [start + (j + 1) ..< start + count]"
      by (simp add: upt_conv_Cons)
    with True 1 show ?thesis by (subst writeLiteral.simps) simp
  next
    case False
    then show ?thesis by (subst writeLiteral.simps) simp
  qed
qed

lemma map_u8_at: "start + count \<le> length data \<Longrightarrow>
  map (u8_at data) [start ..< start + count] = take count (drop start data)"
  by (auto simp: list_eq_iff_nth_eq u8_at_def)

lemma writeRepeated_foldl:
  "j \<le> runLength \<Longrightarrow> writeRepeated data readIndex w runLength j res
     = fst (foldl put (res, w + j) (replicate (runLength - j) (u8_at data readIndex)))"
proof (induction data readIndex w runLength j res rule: writeRepeated.induct)
  case (1 data readIndex w runLength j res)
  show ?case
  proof (cases "j < runLength")
    case True
    then have "replicate (runLength - j) (u8_at data readIndex)
               = u8_at data readIndex # replicate (runLength - (j + 1)) (u8_at data readIndex)"
      by (cases "runLength - j") auto
    with True 1 show ?thesis by (subst writeRepeated.simps) (simp add: put_pair)
  next
    case False
    with 1 show ?thesis by (subst writeRepeated.simps) simp
  qed
qed

lemma putRepeated_foldl:
  "i \<le> runLength \<Longrightarrow> putRepeated b runLength i s = foldl put s (replicate (runLength - i) b)"
proof (induction b runLength i s rule: putRepeated.induct)
  case (1 b runLength i s)
  show ?case
  proof (cases "i < runLength")
    case True
    then have "replicate (runLength - i) b = b # replicate (runLength - (i + 1)) b"
      by (cases "runLength - i") auto
    with True 1 show ?thesis by (subst putRepeated.simps) simp
  next
    case False
    with 1 show ?thesis by (subst putRepeated.simps) simp
  qed
qed

lemma ta_fill_foldl:
  "w + k \<le> length res \<Longrightarrow> ta_fill res b w (w + k) = fst (foldl put (res, w) (replicate k b))"
  by (simp add: ta_fill_def fst_foldl_put min_def max_def)

lemma ta_set_foldl:
  "w + length src \<le> length res \<Longrightarrow> ta_set res src w = Inr (fst (foldl put (res, w) src))"
  by (simp add: ta_set_def fst_foldl_put add.commute)

section \<open>The decoders against the wire format\<close>

text \<open>
  The size pass of \<^verbatim>\<open>src/mod.ts\<close> computes the length of \<open>unpack True\<close>, the one of
  the stack-based module the length of \<open>unpack False\<close>, and each fails where the
  reading fails. The expansion passes then fill the allocated array with the bytes of
  the reading, so that each decoder, as a whole, is its reading.
\<close>

lemma drop_step: "i < length data \<Longrightarrow> drop i data = data ! i # drop (i + 1) data"
  by (simp add: Cons_nth_drop_Suc)

lemma calculateDecompressedSize_loop_unpack:
  "i \<le> length data \<Longrightarrow>
   calculateDecompressedSize_loop data i sz =
     (case unpack True (drop i data) of None \<Rightarrow> Inl Truncated | Some x \<Rightarrow> Inr (sz + length x))"
proof (induction "length data - i" arbitrary: i sz rule: less_induct)
  case less
  show ?case
  proof (cases "i < length data")
    case False
    with less.prems show ?thesis by (subst calculateDecompressedSize_loop.simps) simp
  next
    case True
    define h where "h = data ! i"
    define rest where "rest = drop (i + 1) data"
    have d: "drop i data = h # rest" using True by (simp add: h_def rest_def drop_step)
    have lr: "length rest = length data - (i + 1)" by (simp add: rest_def)
    consider (last) "i + 1 \<ge> length data"
      | (lit_short) "i + 1 < length data" "unat h < 128" "i + 1 + (unat h + 1) > length data"
      | (lit) "i + 1 < length data" "unat h < 128" "i + 1 + (unat h + 1) \<le> length data"
      | (rep) "i + 1 < length data" "unat h > 128"
      | (noop) "i + 1 < length data" "unat h = 128"
      by linarith
    then show ?thesis
    proof cases
      case last
      with True lr have "rest = []" by simp
      with True last show ?thesis
        by (subst calculateDecompressedSize_loop.simps) (simp add: d)
    next
      case lit_short
      then have "rest \<noteq> []" "length rest < unat h + 1" using lr by auto
      with True lit_short show ?thesis
        by (subst calculateDecompressedSize_loop.simps)
           (simp add: d Let_def MAX_RUN_LENGTH_def h_def [symmetric])
    next
      case lit
      then have r: "rest \<noteq> []" "\<not> length rest < unat h + 1" using lr by auto
      have dd: "drop (unat h + 1) rest = drop (i + 1 + (unat h + 1)) data"
        by (simp add: rest_def add.commute)
      have IH: "calculateDecompressedSize_loop data (i + 1 + (unat h + 1)) (sz + (unat h + 1)) =
          (case unpack True (drop (unat h + 1) rest) of None \<Rightarrow> Inl Truncated
           | Some x \<Rightarrow> Inr (sz + (unat h + 1) + length x))"
        unfolding dd using lit True by (intro less.hyps) auto
      from r have lt: "length (take (unat h + 1) rest) = unat h + 1" by simp
      show ?thesis
        using True lit r IH lt
        by (subst calculateDecompressedSize_loop.simps)
           (auto simp: d Let_def MAX_RUN_LENGTH_def h_def [symmetric] split: option.splits)
    next
      case rep
      then have r: "rest \<noteq> []" using lr by auto
      have dd: "tl rest = drop (i + 1 + 1) data"
        by (simp add: rest_def drop_Suc tl_drop)
      have IH: "calculateDecompressedSize_loop data (i + 1 + 1) (sz + (257 - unat h)) =
          (case unpack True (tl rest) of None \<Rightarrow> Inl Truncated
           | Some x \<Rightarrow> Inr (sz + (257 - unat h) + length x))"
        unfolding dd using rep True by (intro less.hyps) auto
      show ?thesis
        using True rep r IH
        by (subst calculateDecompressedSize_loop.simps)
           (auto simp: d Let_def MAX_RUN_LENGTH_def h_def [symmetric] split: option.splits)
    next
      case noop
      then have r: "rest \<noteq> []" using lr by auto
      have IH: "calculateDecompressedSize_loop data (i + 1) sz =
          (case unpack True rest of None \<Rightarrow> Inl Truncated
           | Some x \<Rightarrow> Inr (sz + length x))"
        unfolding rest_def using noop True by (intro less.hyps) auto
      show ?thesis
        using True noop r IH
        by (subst calculateDecompressedSize_loop.simps)
           (auto simp: d Let_def MAX_RUN_LENGTH_def h_def [symmetric] split: option.splits)
    qed
  qed
qed


lemma calculateSizeDecompressed_loop_unpack:
  "i \<le> length data \<Longrightarrow>
   calculateSizeDecompressed_loop data i sz =
     (case unpack False (drop i data) of None \<Rightarrow> Inl Truncated | Some x \<Rightarrow> Inr (sz + length x))"
proof (induction "length data - i" arbitrary: i sz rule: less_induct)
  case less
  show ?case
  proof (cases "i < length data")
    case False
    with less.prems show ?thesis by (subst calculateSizeDecompressed_loop.simps) simp
  next
    case True
    define h where "h = data ! i"
    define rest where "rest = drop (i + 1) data"
    have d: "drop i data = h # rest" using True by (simp add: h_def rest_def drop_step)
    have lr: "length rest = length data - (i + 1)" by (simp add: rest_def)
    consider (lit_short) "unat h < 128" "i + 1 + (unat h + 1) > length data"
      | (lit) "unat h < 128" "i + 1 + (unat h + 1) \<le> length data"
      | (rep_short) "unat h > 128" "i + 1 \<ge> length data"
      | (rep) "unat h > 128" "i + 1 < length data"
      | (noop) "unat h = 128"
      by linarith
    then show ?thesis
    proof cases
      case lit_short
      then have "length rest < unat h + 1" using lr by auto
      with True lit_short show ?thesis
        by (subst calculateSizeDecompressed_loop.simps)
           (simp add: d Let_def h_def [symmetric])
    next
      case lit
      then have r: "\<not> length rest < unat h + 1" using lr by auto
      have dd: "drop (unat h + 1) rest = drop (i + 1 + (unat h + 1)) data"
        by (simp add: rest_def add.commute)
      have IH: "calculateSizeDecompressed_loop data (i + 1 + (unat h + 1)) (sz + (unat h + 1)) =
          (case unpack False (drop (unat h + 1) rest) of None \<Rightarrow> Inl Truncated
           | Some x \<Rightarrow> Inr (sz + (unat h + 1) + length x))"
        unfolding dd using lit True by (intro less.hyps) auto
      from r have lt: "length (take (unat h + 1) rest) = unat h + 1" by simp
      show ?thesis
        using True lit r IH lt
        by (subst calculateSizeDecompressed_loop.simps)
           (auto simp: d Let_def h_def [symmetric] split: option.splits)
    next
      case rep_short
      with True lr have "rest = []" by simp
      with True rep_short show ?thesis
        by (subst calculateSizeDecompressed_loop.simps) (simp add: d Let_def h_def [symmetric])
    next
      case rep
      then have r: "rest \<noteq> []" using lr by auto
      have dd: "tl rest = drop (i + 1 + 1) data"
        by (simp add: rest_def drop_Suc tl_drop)
      have IH: "calculateSizeDecompressed_loop data (i + 1 + 1) (sz + (257 - unat h)) =
          (case unpack False (tl rest) of None \<Rightarrow> Inl Truncated
           | Some x \<Rightarrow> Inr (sz + (257 - unat h) + length x))"
        unfolding dd using rep True by (intro less.hyps) auto
      show ?thesis
        using True rep r IH
        by (subst calculateSizeDecompressed_loop.simps)
           (auto simp: d Let_def h_def [symmetric] split: option.splits)
    next
      case noop
      have IH: "calculateSizeDecompressed_loop data (i + 1) sz =
          (case unpack False rest of None \<Rightarrow> Inl Truncated
           | Some x \<Rightarrow> Inr (sz + length x))"
        unfolding rest_def using noop True by (intro less.hyps) auto
      show ?thesis
        using True noop IH
        by (subst calculateSizeDecompressed_loop.simps)
           (auto simp: d Let_def h_def [symmetric] split: option.splits)
    qed
  qed
qed

lemma unpack_strict_imp: "unpack strict xs = Some x \<Longrightarrow> unpack False xs = Some x"
proof (induction strict xs arbitrary: x rule: unpack.induct)
  case (1 strict)
  then show ?case by simp
next
  case (2 strict h rest)
  consider (lit) "unat h < 128" | (rep) "unat h > 128" | (noop) "unat h = 128"
    by linarith
  then show ?case
  proof cases
    case lit
    with "2.prems" obtain y where a: "\<not> (strict \<and> rest = [])" "\<not> length rest < unat h + 1"
      and y: "unpack strict (drop (unat h + 1) rest) = Some y"
      and x: "x = take (unat h + 1) rest @ y"
      by (auto split: if_splits)
    from "2.IH"(1) [OF a(1) lit a(2) y] lit a x show ?thesis by simp
  next
    case rep
    with "2.prems" obtain y where a: "\<not> (strict \<and> rest = [])" "rest \<noteq> []"
      and y: "unpack strict (tl rest) = Some y"
      and x: "x = replicate (257 - unat h) (hd rest) @ y"
      by (auto split: if_splits)
    from rep have n: "\<not> unat h < 128" by simp
    from "2.IH"(2) [OF a(1) n rep a(2) y] rep a x show ?thesis by simp
  next
    case noop
    with "2.prems" have a: "\<not> (strict \<and> rest = [])" and y: "unpack strict rest = Some x"
      by (auto split: if_splits)
    from noop have n: "\<not> unat h < 128" "\<not> unat h > 128" by simp_all
    from "2.IH"(3) [OF a n y] noop show ?thesis by simp
  qed
qed

lemma pair_foldl_put:
  "(fst (foldl put (fst s, snd s) vs), snd s + length vs) = foldl put s vs"
  by (simp add: prod_eq_iff snd_foldl_put)

lemma decompress_loop_unpack:
  "i \<le> length data \<Longrightarrow> unpack False (drop i data) = Some x \<Longrightarrow>
   snd s + length x \<le> length (fst s) \<Longrightarrow>
   decompress_loop data i s = fst (foldl put s x)"
proof (induction "length data - i" arbitrary: i s x rule: less_induct)
  case less
  show ?case
  proof (cases "i < length data")
    case False
    with less.prems show ?thesis by (subst decompress_loop.simps) simp
  next
    case True
    define h where "h = data ! i"
    define rest where "rest = drop (i + 1) data"
    have d: "drop i data = h # rest" using True by (simp add: h_def rest_def drop_step)
    have lr: "length rest = length data - (i + 1)" by (simp add: rest_def)
    note u = less.prems(2) [unfolded d]
    consider (lit) "unat h < 128" | (rep) "unat h > 128" | (noop) "unat h = 128"
      by linarith
    then show ?thesis
    proof cases
      case lit
      define lits where "lits = take (unat h + 1) rest"
      from u lit obtain y where r: "\<not> length rest < unat h + 1"
        and y: "unpack False (drop (unat h + 1) rest) = Some y" and x: "x = lits @ y"
        by (auto simp: lits_def split: if_splits)
      from r lr have le: "i + 1 + (unat h + 1) \<le> length data" by simp
      have dd: "drop (unat h + 1) rest = drop (i + 1 + (unat h + 1)) data"
        by (simp add: rest_def add.commute)
      have w: "writeLiteral data (i + 1) (unat h + 1) 0 s = foldl put s lits"
        by (simp only: writeLiteral_foldl add_0_right map_u8_at [OF le] lits_def rest_def)
      have ll: "length lits = unat h + 1" using r by (simp add: lits_def)
      have "decompress_loop data (i + 1 + (unat h + 1)) (foldl put s lits)
            = fst (foldl put (foldl put s lits) y)"
      proof (rule less.hyps)
        show "length data - (i + 1 + (unat h + 1)) < length data - i" using True by simp
        show "i + 1 + (unat h + 1) \<le> length data" by (rule le)
        show "unpack False (drop (i + 1 + (unat h + 1)) data) = Some y" using y unfolding dd .
        show "snd (foldl put s lits) + length y \<le> length (fst (foldl put s lits))"
          using less.prems(3) ll by (simp add: snd_foldl_put length_foldl_put x)
      qed
      with True lit w show ?thesis
        by (subst decompress_loop.simps)
           (simp add: Let_def MAX_RUN_LENGTH_def h_def [symmetric] x)
    next
      case rep
      define reps where "reps = replicate (257 - unat h) (hd rest)"
      from u rep obtain y where r: "rest \<noteq> []"
        and y: "unpack False (tl rest) = Some y" and x: "x = reps @ y"
        by (auto simp: reps_def split: if_splits)
      from r lr have le: "i + 1 < length data" by (cases rest) auto
      have dd: "tl rest = drop (i + 1 + 1) data"
        by (simp add: rest_def drop_Suc tl_drop)
      have b: "u8_at data (i + 1) = hd rest"
        using le by (simp add: u8_at_def rest_def hd_drop_conv_nth)
      have w: "(writeRepeated data (i + 1) (snd s) (257 - unat h) 0 (fst s), snd s + (257 - unat h))
               = foldl put s reps"
        using pair_foldl_put [of s reps] b by (simp add: writeRepeated_foldl reps_def)
      have "decompress_loop data (i + 1 + 1) (foldl put s reps)
            = fst (foldl put (foldl put s reps) y)"
      proof (rule less.hyps)
        show "length data - (i + 1 + 1) < length data - i" using True by simp
        show "i + 1 + 1 \<le> length data" using le by simp
        show "unpack False (drop (i + 1 + 1) data) = Some y" using y unfolding dd .
        show "snd (foldl put s reps) + length y \<le> length (fst (foldl put s reps))"
          using less.prems(3) by (simp add: snd_foldl_put length_foldl_put x)
      qed
      with True rep w show ?thesis
        by (subst decompress_loop.simps)
           (simp add: Let_def MAX_RUN_LENGTH_def h_def [symmetric] x)
    next
      case noop
      with u have y: "unpack False rest = Some x" by simp
      have "decompress_loop data (i + 1) s = fst (foldl put s x)"
      proof (rule less.hyps)
        show "length data - (i + 1) < length data - i" using True by simp
        show "i + 1 \<le> length data" using True by simp
        show "unpack False (drop (i + 1) data) = Some x" using y unfolding rest_def .
        show "snd s + length x \<le> length (fst s)" by (rule less.prems(3))
      qed
      with True noop show ?thesis
        by (subst decompress_loop.simps)
           (simp add: Let_def MAX_RUN_LENGTH_def h_def [symmetric])
    qed
  qed
qed

lemma foldl_put_fresh: "fst (foldl put (replicate (length x) 0, 0) x) = x"
  by (simp add: fst_foldl_put)

lemma decompress_unpack:
  "decompress data = (case unpack True data of None \<Rightarrow> Inl Truncated | Some x \<Rightarrow> Inr x)"
proof (cases "unpack True data")
  case None
  then show ?thesis
    using calculateDecompressedSize_loop_unpack [of 0 data 0]
    by (simp add: decompress_def calculateDecompressedSize_def)
next
  case (Some x)
  then have "decompress_loop data 0 (replicate (length x) 0, 0) = x"
    using decompress_loop_unpack [of 0 data x "(replicate (length x) 0, 0)"]
    by (simp add: unpack_strict_imp foldl_put_fresh)
  with Some show ?thesis
    using calculateDecompressedSize_loop_unpack [of 0 data 0]
    by (simp add: decompress_def calculateDecompressedSize_def)
qed

lemma decompress_buf_loop_unpack:
  "i \<le> length data \<Longrightarrow> unpack False (drop i data) = Some x \<Longrightarrow>
   snd s + length x \<le> length (fst s) \<Longrightarrow>
   decompress_buf_loop data i s = Inr (fst (foldl put s x))"
proof (induction "length data - i" arbitrary: i s x rule: less_induct)
  case less
  show ?case
  proof (cases "i < length data")
    case False
    with less.prems show ?thesis by (subst decompress_buf_loop.simps) simp
  next
    case True
    define h where "h = data ! i"
    define rest where "rest = drop (i + 1) data"
    have d: "drop i data = h # rest" using True by (simp add: h_def rest_def drop_step)
    have lr: "length rest = length data - (i + 1)" by (simp add: rest_def)
    note u = less.prems(2) [unfolded d]
    consider (lit) "unat h < 128" | (rep) "unat h > 128" | (noop) "unat h = 128"
      by linarith
    then show ?thesis
    proof cases
      case lit
      define lits where "lits = take (unat h + 1) rest"
      from u lit obtain y where r: "\<not> length rest < unat h + 1"
        and y: "unpack False (drop (unat h + 1) rest) = Some y" and x: "x = lits @ y"
        by (auto simp: lits_def split: if_splits)
      from r lr have le: "i + 1 + (unat h + 1) \<le> length data" by simp
      have dd: "drop (unat h + 1) rest = drop (i + 1 + (unat h + 1)) data"
        by (simp add: rest_def add.commute)
      have ll: "length lits = unat h + 1" using r by (simp add: lits_def)
      have w: "writeLiteral data (i + 1) (unat h + 1) 0 s = foldl put s lits"
        by (simp only: writeLiteral_foldl add_0_right map_u8_at [OF le] lits_def rest_def)
      have sub: "subarray data (i + 1) (i + 1 + (unat h + 1)) = lits"
        by (simp add: subarray_def lits_def rest_def)
      have fits: "snd s + length lits \<le> length (fst s)"
        using less.prems(3) by (simp add: x)
      have st: "ta_set (fst s) lits (snd s) = Inr (fst (foldl put s lits))"
        using ta_set_foldl [OF fits] by simp
      have pr: "(fst (foldl put s lits), snd s + (unat h + 1)) = foldl put s lits"
        using pair_foldl_put [of s lits] by (simp add: ll)
      have IH: "decompress_buf_loop data (i + 1 + (unat h + 1)) (foldl put s lits)
            = Inr (fst (foldl put (foldl put s lits) y))"
      proof (rule less.hyps)
        show "length data - (i + 1 + (unat h + 1)) < length data - i" using True by simp
        show "i + 1 + (unat h + 1) \<le> length data" by (rule le)
        show "unpack False (drop (i + 1 + (unat h + 1)) data) = Some y" using y unfolding dd .
        show "snd (foldl put s lits) + length y \<le> length (fst (foldl put s lits))"
          using less.prems(3) ll by (simp add: snd_foldl_put length_foldl_put x)
      qed
      show ?thesis
        using True lit w sub st pr IH
        by (subst decompress_buf_loop.simps) (simp add: Let_def h_def [symmetric] x)
    next
      case rep
      define reps where "reps = replicate (257 - unat h) (hd rest)"
      from u rep obtain y where r: "rest \<noteq> []"
        and y: "unpack False (tl rest) = Some y" and x: "x = reps @ y"
        by (auto simp: reps_def split: if_splits)
      from r lr have le: "i + 1 < length data" by (cases rest) auto
      have dd: "tl rest = drop (i + 1 + 1) data"
        by (simp add: rest_def drop_Suc tl_drop)
      have b: "u8_at data (i + 1) = hd rest"
        using le by (simp add: u8_at_def rest_def hd_drop_conv_nth)
      have fits: "snd s + (257 - unat h) \<le> length (fst s)"
        using less.prems(3) by (simp add: x reps_def)
      have fl: "(ta_fill (fst s) (hd rest) (snd s) (snd s + (257 - unat h)), snd s + (257 - unat h))
               = foldl put s reps"
        using pair_foldl_put [of s reps] ta_fill_foldl [OF fits, of "hd rest"]
        by (simp add: reps_def)
      have pt: "putRepeated (hd rest) (257 - unat h) 0 s = foldl put s reps"
        by (simp add: putRepeated_foldl reps_def)
      have IH: "decompress_buf_loop data (i + 1 + 1) (foldl put s reps)
            = Inr (fst (foldl put (foldl put s reps) y))"
      proof (rule less.hyps)
        show "length data - (i + 1 + 1) < length data - i" using True by simp
        show "i + 1 + 1 \<le> length data" using le by simp
        show "unpack False (drop (i + 1 + 1) data) = Some y" using y unfolding dd .
        show "snd (foldl put s reps) + length y \<le> length (fst (foldl put s reps))"
          using less.prems(3) by (simp add: snd_foldl_put length_foldl_put x)
      qed
      show ?thesis
        using True rep b fl pt IH
        by (subst decompress_buf_loop.simps) (simp add: Let_def h_def [symmetric] x)
    next
      case noop
      with u have y: "unpack False rest = Some x" by simp
      have "decompress_buf_loop data (i + 1) s = Inr (fst (foldl put s x))"
      proof (rule less.hyps)
        show "length data - (i + 1) < length data - i" using True by simp
        show "i + 1 \<le> length data" using True by simp
        show "unpack False (drop (i + 1) data) = Some x" using y unfolding rest_def .
        show "snd s + length x \<le> length (fst s)" by (rule less.prems(3))
      qed
      with True noop show ?thesis
        by (subst decompress_buf_loop.simps) (simp add: Let_def h_def [symmetric])
    qed
  qed
qed

lemma decompress_buf_unpack:
  "decompress_buf data = (case unpack False data of None \<Rightarrow> Inl Truncated | Some x \<Rightarrow> Inr x)"
proof (cases "unpack False data")
  case None
  then show ?thesis
    using calculateSizeDecompressed_loop_unpack [of 0 data 0]
    by (simp add: decompress_buf_def calculateSizeDecompressed_def)
next
  case (Some x)
  then have "decompress_buf_loop data 0 (replicate (length x) 0, 0) = Inr x"
    using decompress_buf_loop_unpack [of 0 data x "(replicate (length x) 0, 0)"]
    by (simp add: foldl_put_fresh)
  with Some show ?thesis
    using calculateSizeDecompressed_loop_unpack [of 0 data 0]
    by (simp add: decompress_buf_def calculateSizeDecompressed_def)
qed

lemma unpack_None_iff: "unpack False xs = None \<longleftrightarrow> truncatedRun xs"
proof (induction xs rule: truncatedRun.induct)
  case 1
  show ?case by simp
next
  case (2 h rest)
  consider (lit) "unat h < 128" | (rep) "unat h > 128" | (noop) "unat h = 128"
    by linarith
  then show ?case
  proof cases
    case lit
    show ?thesis
    proof (cases "length rest < unat h + 1")
      case True
      with lit show ?thesis by simp
    next
      case False
      with lit "2.IH"(1) show ?thesis by simp
    qed
  next
    case rep
    then have n: "\<not> unat h < 128" by simp
    show ?thesis
    proof (cases "rest = []")
      case True
      with rep show ?thesis by simp
    next
      case False
      with rep n "2.IH"(2) show ?thesis by simp
    qed
  next
    case noop
    then have n: "\<not> unat h < 128" "\<not> unat h > 128" by simp_all
    with noop "2.IH"(3) show ?thesis by simp
  qed
qed

section \<open>The runs the encoders write\<close>

text \<open>
  A literal run of \<open>k\<close> bytes has the header \<open>k - 1\<close>, a replicate run of \<open>k\<close> bytes
  the header \<open>257 - k\<close>; for the lengths the encoders produce neither is 128, and the
  reference reading takes the run back to its bytes.
\<close>

lemma unat_of_nat_byte: "m < 256 \<Longrightarrow> unat (of_nat m :: byte) = m"
  by (simp add: unat_of_nat)

lemma unat_literal_header: "1 \<le> k \<Longrightarrow> k \<le> 128 \<Longrightarrow> unat (of_int (int k - 1) :: byte) = k - 1"
proof -
  assume a: "1 \<le> k" "k \<le> 128"
  then have "int k - 1 = int (k - 1)" by simp
  then have "(of_int (int k - 1) :: byte) = of_nat (k - 1)" by (simp only: of_int_of_nat_eq)
  moreover have "unat (of_nat (k - 1) :: byte) = k - 1"
    by (rule unat_of_nat_byte) (use a in arith)
  ultimately show ?thesis by (simp only:)
qed

lemma unat_repeat_header: "2 \<le> k \<Longrightarrow> k \<le> 128 \<Longrightarrow> unat (of_int (257 - int k) :: byte) = 257 - k"
proof -
  assume a: "2 \<le> k" "k \<le> 128"
  then have "257 - int k = int (257 - k)" by simp
  then have "(of_int (257 - int k) :: byte) = of_nat (257 - k)" by (simp only: of_int_of_nat_eq)
  moreover have "unat (of_nat (257 - k) :: byte) = 257 - k"
    by (rule unat_of_nat_byte) (use a in arith)
  ultimately show ?thesis by (simp only:)
qed

lemma unpack_literal_gen:
  assumes "unat h = k - 1" "1 \<le> k" "k \<le> 128" "length lits = k"
  shows "unpack strict (h # lits @ rest) = map_option (\<lambda>out. lits @ out) (unpack strict rest)"
proof -
  from assms have "lits \<noteq> []" by auto
  with assms show ?thesis by auto
qed

lemma unpack_repeat_gen:
  assumes "unat h = 257 - k" "2 \<le> k" "k \<le> 128"
  shows "unpack strict (h # b # rest) = map_option (\<lambda>out. replicate k b @ out) (unpack strict rest)"
  using assms by auto

lemma headers_literal_gen:
  assumes "unat h = k - 1" "1 \<le> k" "k \<le> 128" "length lits = k"
  shows "headers (h # lits @ rest) = h # headers rest"
  using assms by (simp add: payloadLength_def)

lemma headers_repeat_gen:
  assumes "unat h = 257 - k" "2 \<le> k" "k \<le> 128"
  shows "headers (h # b # rest) = h # headers rest"
  using assms by (simp add: payloadLength_def)

lemma not_noop_literal: "unat (h :: byte) = k - 1 \<Longrightarrow> k \<le> 128 \<Longrightarrow> h \<noteq> 128"
  by auto

lemma not_noop_repeat: "unat (h :: byte) = 257 - k \<Longrightarrow> 2 \<le> k \<Longrightarrow> k \<le> 128 \<Longrightarrow> h \<noteq> 128"
  by auto


lemma foldl_put_Cons: "foldl put (put s v) vs = foldl put s (v # vs)"
  by simp

lemma scanRun_run:
  "runStart \<le> r \<Longrightarrow> r < length data \<Longrightarrow> r - runStart \<le> 127 \<Longrightarrow>
   (\<forall>i. runStart \<le> i \<and> i \<le> r \<longrightarrow> data ! i = data ! runStart) \<Longrightarrow>
   scanRun data runStart r < length data \<and> scanRun data runStart r - runStart \<le> 127 \<and>
   (\<forall>i. runStart \<le> i \<and> i \<le> scanRun data runStart r \<longrightarrow> data ! i = data ! runStart)"
proof (induction data runStart r rule: scanRun.induct)
  case (1 data runStart r)
  show ?case
  proof (cases "r + 1 < length data \<and> data ! r = data ! (r + 1) \<and> r - runStart < MAX_RUN_LENGTH - 1")
    case True
    then have eq: "scanRun data runStart r = scanRun data runStart (r + 1)"
      by (subst scanRun.simps) simp
    have all: "\<forall>i. runStart \<le> i \<and> i \<le> r + 1 \<longrightarrow> data ! i = data ! runStart"
    proof (intro allI impI)
      fix i assume i: "runStart \<le> i \<and> i \<le> r + 1"
      show "data ! i = data ! runStart"
      proof (cases "i \<le> r")
        case True
        with i "1.prems"(4) show ?thesis by blast
      next
        case False
        with i have "i = r + 1" by simp
        moreover from "1.prems" have "data ! r = data ! runStart" by blast
        ultimately show ?thesis using True by simp
      qed
    qed
    have "scanRun data runStart (r + 1) < length data
          \<and> scanRun data runStart (r + 1) - runStart \<le> 127
          \<and> (\<forall>i. runStart \<le> i \<and> i \<le> scanRun data runStart (r + 1) \<longrightarrow> data ! i = data ! runStart)"
    proof (rule "1.IH")
      show "r + 1 < length data \<and> data ! r = data ! (r + 1) \<and> r - runStart < MAX_RUN_LENGTH - 1"
        by (rule True)
      show "runStart \<le> r + 1" using "1.prems"(1) by simp
      show "r + 1 < length data" using True by simp
      show "r + 1 - runStart \<le> 127" using True "1.prems"(1) unfolding MAX_RUN_LENGTH_def by arith
      show "\<forall>i. runStart \<le> i \<and> i \<le> r + 1 \<longrightarrow> data ! i = data ! runStart" by (rule all)
    qed
    then show ?thesis unfolding eq .
  next
    case False
    then have "scanRun data runStart r = r" by (subst scanRun.simps) (simp only: if_False)
    then show ?thesis using "1.prems" by (simp only:)
  qed
qed

lemma run_replicate:
  assumes "r + k \<le> length data" "\<forall>i. r \<le> i \<and> i < r + k \<longrightarrow> data ! i = b"
  shows "drop r data = replicate k b @ drop (r + k) data"
proof -
  have "take k (drop r data) = replicate k b"
    using assms by (auto simp: list_eq_iff_nth_eq)
  moreover have "drop r data = take k (drop r data) @ drop (r + k) data"
    by (metis append_take_drop_id drop_drop add.commute)
  ultimately show ?thesis by simp
qed

lemma collectLiteral_count:
  "r \<le> length data \<Longrightarrow> c \<le> 128 \<Longrightarrow>
   fst (collectLiteral data r c) - r = snd (collectLiteral data r c) - c
   \<and> c \<le> snd (collectLiteral data r c) \<and> snd (collectLiteral data r c) \<le> 128
   \<and> fst (collectLiteral data r c) \<le> length data"
proof (induction data r c rule: collectLiteral.induct)
  case (1 data r c)
  define p where "p = collectLiteral data (r + 1) (c + 1)"
  show ?case
  proof (cases "r < length data \<and> c < MAX_RUN_LENGTH
         \<and> (r + 1 = length data \<or> data ! r \<noteq> data ! (r + 1))")
    case True
    then have eq: "collectLiteral data r c = p"
      unfolding p_def by (subst collectLiteral.simps) simp
    have "fst p - (r + 1) = snd p - (c + 1) \<and> c + 1 \<le> snd p \<and> snd p \<le> 128
          \<and> fst p \<le> length data"
      unfolding p_def by (rule "1.IH") (use True in \<open>auto simp: MAX_RUN_LENGTH_def\<close>)
    moreover have "r + 1 \<le> fst p" unfolding p_def by (rule collectLiteral_ge)
    ultimately show ?thesis unfolding eq by arith
  next
    case False
    then have "collectLiteral data r c = (r, c)" by (subst collectLiteral.simps) auto
    with "1.prems" show ?thesis by simp
  qed
qed

lemma compress_loop_end: "\<not> r < length data \<Longrightarrow> compress_loop data r s = s"
  by (subst compress_loop.simps) simp

lemma compress_loop_repeat:
  "r < length data \<Longrightarrow> r < scanRun data r r \<Longrightarrow>
   compress_loop data r s =
     compress_loop data (scanRun data r r + 1)
       (put (put s (of_int (257 - int (scanRun data r r - r + 1)))) (u8_at data r))"
  by (subst compress_loop.simps) (simp add: Let_def)

lemma compress_loop_literal:
  "r < length data \<Longrightarrow> scanRun data r r = r \<Longrightarrow>
   compress_loop data r s =
     compress_loop data (fst (collectLiteral data r 0))
       (writeLiteral data r (snd (collectLiteral data r 0)) 0
          (put s (of_int (int (snd (collectLiteral data r 0)) - 1))))"
  by (subst compress_loop.simps) (simp add: Let_def)

lemma compress_loop_runs:
  "r \<le> length data \<Longrightarrow>
   \<exists>vs. (\<forall>s. compress_loop data r s = foldl put s vs)
        \<and> length vs \<le> 2 * (length data - r)
        \<and> unpack True vs = Some (drop r data)
        \<and> 128 \<notin> set (headers vs)"
proof (induction "length data - r" arbitrary: r rule: less_induct)
  case less
  show ?case
  proof (cases "r < length data")
    case False
    with less.prems have "\<forall>s. compress_loop data r s = foldl put s []"
      by (simp add: compress_loop_end)
    with False less.prems show ?thesis by (intro exI [of _ "[]"]) simp
  next
    case True
    define r1 where "r1 = scanRun data r r"
    have ge: "r \<le> r1" unfolding r1_def by (rule scanRun_ge)
    have run: "r1 < length data \<and> r1 - r \<le> 127 \<and> (\<forall>i. r \<le> i \<and> i \<le> r1 \<longrightarrow> data ! i = data ! r)"
      unfolding r1_def by (rule scanRun_run) (use True in auto)
    show ?thesis
    proof (cases "r < r1")
      case rep: True
      define k where "k = r1 - r + 1"
      define h :: byte where "h = of_int (257 - int k)"
      have k: "2 \<le> k" "k \<le> 128" "r + k = r1 + 1" "r + k \<le> length data"
        using rep run by (auto simp: k_def)
      have uh: "unat h = 257 - k" unfolding h_def using k(1,2) by (rule unat_repeat_header)
      have "\<exists>vs. (\<forall>s. compress_loop data (r1 + 1) s = foldl put s vs)
          \<and> length vs \<le> 2 * (length data - (r1 + 1))
          \<and> unpack True vs = Some (drop (r1 + 1) data)
          \<and> 128 \<notin> set (headers vs)"
        by (rule less.hyps) (use True run rep in arith)+
      then obtain vs where vs: "\<forall>s. compress_loop data (r1 + 1) s = foldl put s vs"
        "length vs \<le> 2 * (length data - (r1 + 1))"
        "unpack True vs = Some (drop (r1 + 1) data)" "128 \<notin> set (headers vs)"
        by blast
      have b: "u8_at data r = data ! r" using True by (simp add: u8_at_def)
      have step: "\<forall>s. compress_loop data r s = foldl put s (h # data ! r # vs)"
      proof
        fix s
        have "compress_loop data r s = compress_loop data (r1 + 1) (put (put s h) (data ! r))"
          using compress_loop_repeat [OF True rep [unfolded r1_def], of s]
          unfolding r1_def [symmetric] k_def [symmetric] h_def [symmetric] b .
        also have "\<dots> = foldl put (put (put s h) (data ! r)) vs" using vs(1) by blast
        finally show "compress_loop data r s = foldl put s (h # data ! r # vs)" by simp
      qed
      have "\<forall>i. r \<le> i \<and> i < r + k \<longrightarrow> data ! i = data ! r"
      proof (intro allI impI)
        fix i assume "r \<le> i \<and> i < r + k"
        then have "r \<le> i \<and> i \<le> r1" using k(3) by arith
        with run show "data ! i = data ! r" by blast
      qed
      with k(4) have d: "drop r data = replicate k (data ! r) @ drop (r + k) data"
        by (rule run_replicate)
      have "unpack True (h # data ! r # vs)
            = map_option (\<lambda>out. replicate k (data ! r) @ out) (unpack True vs)"
        using uh k(1,2) by (rule unpack_repeat_gen)
      then have u: "unpack True (h # data ! r # vs) = Some (drop r data)"
        unfolding vs(3) d k(3) by simp
      have hd: "headers (h # data ! r # vs) = h # headers vs"
        using uh k(1,2) by (rule headers_repeat_gen)
      have "h \<noteq> 128" using uh k(1,2) by (rule not_noop_repeat)
      with vs(4) have nn: "128 \<notin> set (headers (h # data ! r # vs))" unfolding hd by simp
      have "length (h # data ! r # vs) \<le> 2 * (length data - r)"
        using vs(2) k rep by simp
      with step u nn show ?thesis by blast
    next
      case lit: False
      with ge have e: "scanRun data r r = r" by (simp add: r1_def)
      define c where "c = snd (collectLiteral data r 0)"
      define r2 where "r2 = fst (collectLiteral data r 0)"
      define h :: byte where "h = of_int (int c - 1)"
      define lits where "lits = take c (drop r data)"
      have pr: "r < r2" unfolding r2_def using True e by (rule collectLiteral_progress)
      have cnt: "r2 - r = c" "c \<le> 128" "r2 \<le> length data"
        using collectLiteral_count [of r data 0] True by (simp_all add: r2_def c_def)
      have c: "1 \<le> c" "c \<le> 128" "r + c = r2" "r + c \<le> length data"
        using pr cnt by auto
      have uh: "unat h = c - 1" unfolding h_def using c(1,2) by (rule unat_literal_header)
      have ll: "length lits = c" using c by (simp add: lits_def)
      have "\<exists>vs. (\<forall>s. compress_loop data r2 s = foldl put s vs)
          \<and> length vs \<le> 2 * (length data - r2)
          \<and> unpack True vs = Some (drop r2 data)
          \<and> 128 \<notin> set (headers vs)"
        by (rule less.hyps) (use True pr cnt in arith)+
      then obtain vs where vs: "\<forall>s. compress_loop data r2 s = foldl put s vs"
        "length vs \<le> 2 * (length data - r2)"
        "unpack True vs = Some (drop r2 data)" "128 \<notin> set (headers vs)"
        by blast
      have w: "\<And>s. writeLiteral data r c 0 s = foldl put s lits"
        by (simp only: writeLiteral_foldl add_0_right map_u8_at [OF c(4)] lits_def)
      have step: "\<forall>s. compress_loop data r s = foldl put s (h # lits @ vs)"
      proof
        fix s
        have "compress_loop data r s = compress_loop data r2 (foldl put (put s h) lits)"
          using compress_loop_literal [OF True e, of s]
          unfolding r2_def [symmetric] c_def [symmetric] h_def [symmetric] w .
        also have "\<dots> = foldl put (foldl put (put s h) lits) vs" using vs(1) by blast
        finally show "compress_loop data r s = foldl put s (h # lits @ vs)" by simp
      qed
      have d: "drop r data = lits @ drop r2 data"
        unfolding lits_def c(3) [symmetric]
        by (metis append_take_drop_id drop_drop add.commute)
      have "unpack True (h # lits @ vs) = map_option (\<lambda>out. lits @ out) (unpack True vs)"
        using uh c(1,2) ll by (rule unpack_literal_gen)
      then have u: "unpack True (h # lits @ vs) = Some (drop r data)"
        unfolding vs(3) d by simp
      have hd: "headers (h # lits @ vs) = h # headers vs"
        using uh c(1,2) ll by (rule headers_literal_gen)
      have "h \<noteq> 128" using uh c(2) by (rule not_noop_literal)
      with vs(4) have nn: "128 \<notin> set (headers (h # lits @ vs))" unfolding hd by simp
      have "length (h # lits @ vs) \<le> 2 * (length data - r)"
        using vs(2) c ll by simp
      with step u nn show ?thesis by blast
    qed
  qed
qed

text \<open>
  \<open>chunk vs X\<close>: the bytes \<open>vs\<close> are whole runs without a no-op header that read back
  as \<open>X\<close>, whatever follows them, and take at most twice the room of \<open>X\<close>.
\<close>

definition chunk :: "byte list \<Rightarrow> byte list \<Rightarrow> bool" where
  "chunk vs X \<longleftrightarrow>
     (\<forall>rest. unpack True (vs @ rest) = map_option (\<lambda>out. X @ out) (unpack True rest))
     \<and> (\<forall>rest. headers (vs @ rest) = headers vs @ headers rest)
     \<and> 128 \<notin> set (headers vs)
     \<and> length vs \<le> 2 * length X"

lemma chunk_Nil: "chunk [] []"
  by (simp add: chunk_def option.map_ident)

lemma chunk_append: "chunk vs1 X1 \<Longrightarrow> chunk vs2 X2 \<Longrightarrow> chunk (vs1 @ vs2) (X1 @ X2)"
  unfolding chunk_def
proof (intro conjI allI)
  assume a: "(\<forall>rest. unpack True (vs1 @ rest) = map_option (\<lambda>out. X1 @ out) (unpack True rest))
     \<and> (\<forall>rest. headers (vs1 @ rest) = headers vs1 @ headers rest)
     \<and> 128 \<notin> set (headers vs1) \<and> length vs1 \<le> 2 * length X1"
    and b: "(\<forall>rest. unpack True (vs2 @ rest) = map_option (\<lambda>out. X2 @ out) (unpack True rest))
     \<and> (\<forall>rest. headers (vs2 @ rest) = headers vs2 @ headers rest)
     \<and> 128 \<notin> set (headers vs2) \<and> length vs2 \<le> 2 * length X2"
  fix rest
  have "unpack True ((vs1 @ vs2) @ rest) = unpack True (vs1 @ (vs2 @ rest))" by simp
  also have "\<dots> = map_option (\<lambda>out. X1 @ out) (unpack True (vs2 @ rest))" using a by blast
  also have "\<dots> = map_option (\<lambda>out. X1 @ out) (map_option (\<lambda>out. X2 @ out) (unpack True rest))"
    using b by simp
  finally show "unpack True ((vs1 @ vs2) @ rest)
                = map_option (\<lambda>out. (X1 @ X2) @ out) (unpack True rest)"
    by (simp add: option.map_comp comp_def)
  have h12: "headers (vs1 @ vs2) = headers vs1 @ headers vs2" using a by blast
  have "headers ((vs1 @ vs2) @ rest) = headers (vs1 @ (vs2 @ rest))" by simp
  also have "\<dots> = headers vs1 @ headers (vs2 @ rest)" using a by blast
  also have "\<dots> = headers vs1 @ headers vs2 @ headers rest" using b by simp
  finally show "headers ((vs1 @ vs2) @ rest) = headers (vs1 @ vs2) @ headers rest"
    using h12 by simp
  show "128 \<notin> set (headers (vs1 @ vs2))" using a b h12 by simp
  show "length (vs1 @ vs2) \<le> 2 * length (X1 @ X2)" using a b by simp
qed

lemma chunk_unpack: "chunk vs X \<Longrightarrow> unpack True vs = Some X"
proof -
  assume "chunk vs X"
  then have "unpack True (vs @ []) = map_option (\<lambda>out. X @ out) (unpack True [])"
    unfolding chunk_def by blast
  then show ?thesis by simp
qed

lemma chunk_literal:
  assumes "1 \<le> k" "k \<le> 128" "length lits = k"
  shows "chunk (of_int (int k - 1) # lits) lits"
proof -
  define h :: byte where "h = of_int (int k - 1)"
  have uh: "unat h = k - 1" unfolding h_def using assms(1,2) by (rule unat_literal_header)
  have u: "\<And>rest. unpack True ((h # lits) @ rest)
                 = map_option (\<lambda>out. lits @ out) (unpack True rest)"
    unfolding append_Cons by (rule unpack_literal_gen [OF uh assms])
  have hh: "\<And>rest. headers ((h # lits) @ rest) = h # headers rest"
    unfolding append_Cons by (rule headers_literal_gen [OF uh assms])
  have h0: "headers (h # lits) = [h]" using hh [of "[]"] by simp
  have "h \<noteq> 128" using uh assms(2) by (rule not_noop_literal)
  with u hh h0 assms show ?thesis unfolding chunk_def h_def [symmetric] by simp
qed

lemma chunk_repeat:
  assumes "2 \<le> k" "k \<le> 128"
  shows "chunk [of_int (257 - int k), b] (replicate k b)"
proof -
  define h :: byte where "h = of_int (257 - int k)"
  have uh: "unat h = 257 - k" unfolding h_def using assms by (rule unat_repeat_header)
  have u: "\<And>rest. unpack True ([h, b] @ rest)
                 = map_option (\<lambda>out. replicate k b @ out) (unpack True rest)"
    unfolding append_Cons append_Nil by (rule unpack_repeat_gen [OF uh assms])
  have hh: "\<And>rest. headers ([h, b] @ rest) = h # headers rest"
    unfolding append_Cons append_Nil by (rule headers_repeat_gen [OF uh assms])
  have h0: "headers [h, b] = [h]" using hh [of "[]"] by simp
  have "h \<noteq> 128" using uh assms by (rule not_noop_repeat)
  with u hh h0 assms show ?thesis unfolding chunk_def h_def [symmetric] by simp
qed

lemma countRepeat_run:
  "1 \<le> c \<Longrightarrow> c \<le> 128 \<Longrightarrow> r + c \<le> length data \<Longrightarrow>
   (\<forall>i. i < c \<longrightarrow> data ! (r + i) = data ! r) \<Longrightarrow>
   countRepeat data r c \<le> 128 \<and> r + countRepeat data r c \<le> length data \<and>
   (\<forall>i. i < countRepeat data r c \<longrightarrow> data ! (r + i) = data ! r)"
proof (induction data r c rule: countRepeat.induct)
  case (1 data r c)
  show ?case
  proof (cases "r + c < length data \<and> data ! (r + c) = data ! r \<and> c < MAX_RUN_LENGTH")
    case True
    then have eq: "countRepeat data r c = countRepeat data r (c + 1)"
      by (subst countRepeat.simps) simp
    have all: "\<forall>i. i < c + 1 \<longrightarrow> data ! (r + i) = data ! r"
    proof (intro allI impI)
      fix i assume i: "i < c + 1"
      show "data ! (r + i) = data ! r"
      proof (cases "i < c")
        case True
        with "1.prems"(4) show ?thesis by blast
      next
        case False
        with i have "i = c" by simp
        with \<open>r + c < length data \<and> data ! (r + c) = data ! r \<and> c < MAX_RUN_LENGTH\<close>
        show ?thesis by (simp only:)
      qed
    qed
    have "countRepeat data r (c + 1) \<le> 128 \<and> r + countRepeat data r (c + 1) \<le> length data \<and>
          (\<forall>i. i < countRepeat data r (c + 1) \<longrightarrow> data ! (r + i) = data ! r)"
    proof (rule "1.IH")
      show "r + c < length data \<and> data ! (r + c) = data ! r \<and> c < MAX_RUN_LENGTH" by (rule True)
      show "1 \<le> c + 1" by simp
      show "c + 1 \<le> 128" using True unfolding MAX_RUN_LENGTH_def by arith
      show "r + (c + 1) \<le> length data" using True by arith
      show "\<forall>i. i < c + 1 \<longrightarrow> data ! (r + i) = data ! r" by (rule all)
    qed
    then show ?thesis unfolding eq .
  next
    case False
    then have "countRepeat data r c = c" by (subst countRepeat.simps) (simp only: if_False)
    then show ?thesis using "1.prems" by (simp only:)
  qed
qed

lemma countRepeat_1:
  assumes "r < length data"
  shows "1 \<le> countRepeat data r 1 \<and> countRepeat data r 1 \<le> 128
         \<and> r + countRepeat data r 1 \<le> length data
         \<and> drop r data = replicate (countRepeat data r 1) (data ! r) @ drop (r + countRepeat data r 1) data"
proof -
  have a: "\<forall>i. i < (1::nat) \<longrightarrow> data ! (r + i) = data ! r" by simp
  have b: "countRepeat data r 1 \<le> 128 \<and> r + countRepeat data r 1 \<le> length data \<and>
   (\<forall>i. i < countRepeat data r 1 \<longrightarrow> data ! (r + i) = data ! r)"
    by (rule countRepeat_run) (use assms a in simp_all)
  have c: "\<forall>i. r \<le> i \<and> i < r + countRepeat data r 1 \<longrightarrow> data ! i = data ! r"
  proof (intro allI impI)
    fix i assume i: "r \<le> i \<and> i < r + countRepeat data r 1"
    then have "i - r < countRepeat data r 1" by arith
    with b have "data ! (r + (i - r)) = data ! r" by blast
    with i show "data ! i = data ! r" by simp
  qed
  have "drop r data = replicate (countRepeat data r 1) (data ! r) @ drop (r + countRepeat data r 1) data"
    using b c by (intro run_replicate) blast+
  with b countRepeat_ge [of 1 data r] show ?thesis by blast
qed


lemma absorbLiteral_exit:
  "r \<le> length data \<Longrightarrow> lc \<le> 128 \<Longrightarrow>
   fst (absorbLiteral data r lc) \<le> length data \<and> snd (absorbLiteral data r lc) \<le> 128
   \<and> (fst (absorbLiteral data r lc) < length data \<and> snd (absorbLiteral data r lc) < 128
        \<longrightarrow> 2 \<le> countRepeat data (fst (absorbLiteral data r lc)) 1)"
proof (induction data r lc rule: absorbLiteral.induct)
  case (1 data r lc)
  let ?rc = "countRepeat data r 1"
  define b where "b = min ?rc (MAX_RUN_LENGTH - lc)"
  define p where "p = absorbLiteral data (r + b) (lc + b)"
  show ?case
  proof (cases "r < length data \<and> lc < MAX_RUN_LENGTH")
    case False
    then have e: "absorbLiteral data r lc = (r, lc)"
      by (subst absorbLiteral.simps) (simp only: if_False)
    from False "1.prems" show ?thesis unfolding e MAX_RUN_LENGTH_def fst_conv snd_conv by blast
  next
    case True
    note inloop = True
    show ?thesis
    proof (cases "?rc \<ge> 3 \<or> (?rc = 2 \<and> lc = 0)")
      case True
      with inloop have e: "absorbLiteral data r lc = (r, lc)"
        by (subst absorbLiteral.simps) (auto simp: Let_def)
      from True "1.prems" show ?thesis unfolding e fst_conv snd_conv by auto
    next
      case False
      with inloop have e: "absorbLiteral data r lc = p"
        unfolding p_def b_def by (subst absorbLiteral.simps) (auto simp: Let_def)
      have rc: "r + ?rc \<le> length data" using countRepeat_1 [of r data] inloop by blast
      have "fst p \<le> length data \<and> snd p \<le> 128
            \<and> (fst p < length data \<and> snd p < 128 \<longrightarrow> 2 \<le> countRepeat data (fst p) 1)"
        unfolding p_def b_def
      proof (rule "1.IH" [OF _ refl refl refl _ refl])
        show "r < length data \<and> lc < MAX_RUN_LENGTH" by (rule inloop)
        show "\<not> (3 \<le> ?rc \<or> ?rc = 2 \<and> (lc = 0))" by (rule False)
        show "r + min ?rc (MAX_RUN_LENGTH - lc) \<le> length data" using rc by arith
        show "lc + min ?rc (MAX_RUN_LENGTH - lc) \<le> 128"
          using inloop unfolding MAX_RUN_LENGTH_def by arith
      qed
      then show ?thesis unfolding e .
    qed
  qed
qed

lemma compress_ctx_loop_end: "\<not> r < length data \<Longrightarrow> compress_ctx_loop data r s = s"
  by (subst compress_ctx_loop.simps) simp

lemma compress_ctx_loop_step:
  "r < length data \<Longrightarrow>
   compress_ctx_loop data r s =
     (if fst (absorbLiteral data r 0) < length data \<and> snd (absorbLiteral data r 0) < MAX_RUN_LENGTH
      then compress_ctx_loop data
             (fst (absorbLiteral data r 0) + countRepeat data (fst (absorbLiteral data r 0)) 1)
             (put (put (if snd (absorbLiteral data r 0) > 0
                        then writeLiteral data r (snd (absorbLiteral data r 0)) 0
                               (put s (of_int (int (snd (absorbLiteral data r 0)) - 1)))
                        else s)
                     (of_int (257 - int (countRepeat data (fst (absorbLiteral data r 0)) 1))))
                (u8_at data (fst (absorbLiteral data r 0))))
      else compress_ctx_loop data (fst (absorbLiteral data r 0))
             (if snd (absorbLiteral data r 0) > 0
              then writeLiteral data r (snd (absorbLiteral data r 0)) 0
                     (put s (of_int (int (snd (absorbLiteral data r 0)) - 1)))
              else s))"
  by (subst compress_ctx_loop.simps) (simp add: Let_def)

lemma compress_ctx_loop_runs:
  "r \<le> length data \<Longrightarrow>
   \<exists>vs. (\<forall>s. compress_ctx_loop data r s = foldl put s vs) \<and> chunk vs (drop r data)"
proof (induction "length data - r" arbitrary: r rule: less_induct)
  case less
  show ?case
  proof (cases "r < length data")
    case False
    with less.prems have "\<forall>s. compress_ctx_loop data r s = foldl put s []"
      by (simp add: compress_ctx_loop_end)
    moreover from False have "chunk [] (drop r data)" by (simp add: chunk_Nil)
    ultimately show ?thesis by blast
  next
    case True
    define r1 where "r1 = fst (absorbLiteral data r 0)"
    define lc where "lc = snd (absorbLiteral data r 0)"
    define lits where "lits = take lc (drop r data)"
    define vsL where "vsL = (if lc > 0 then of_int (int lc - 1) # lits else [])"
    define S1 where "S1 = (\<lambda>s. if lc > 0
                         then writeLiteral data r lc 0 (put s (of_int (int lc - 1))) else s)"
    have df: "r1 - r = lc" "r \<le> r1"
      using absorbLiteral_diff [of data r 0] by (simp_all add: r1_def lc_def)
    have ex: "r1 \<le> length data" "lc \<le> 128"
      "r1 < length data \<and> lc < 128 \<longrightarrow> 2 \<le> countRepeat data r1 1"
      using absorbLiteral_exit [of r data 0] True by (simp_all add: r1_def lc_def)
    have rl: "r + lc = r1" "r + lc \<le> length data" using df ex by simp_all
    have ll: "length lits = lc" using rl by (simp add: lits_def)
    have w: "\<And>s. writeLiteral data r lc 0 s = foldl put s lits"
      by (simp only: writeLiteral_foldl add_0_right map_u8_at [OF rl(2)] lits_def)
    have SL: "\<And>s. S1 s = foldl put s vsL" by (simp add: S1_def vsL_def w)
    have cL: "chunk vsL lits"
    proof (cases "lc > 0")
      case True
      then have "chunk (of_int (int lc - 1) # lits) lits"
        using ex(2) ll by (intro chunk_literal) simp_all
      with True show ?thesis by (simp add: vsL_def)
    next
      case False
      then show ?thesis using ll by (simp add: vsL_def chunk_Nil)
    qed
    have d1: "drop r data = lits @ drop r1 data"
      unfolding lits_def rl(1) [symmetric] by (metis append_take_drop_id drop_drop add.commute)
    note step = compress_ctx_loop_step [OF True, folded r1_def lc_def]
    have step_rep: "compress_ctx_loop data r s =
          compress_ctx_loop data (r1 + countRepeat data r1 1)
            (put (put (S1 s) (of_int (257 - int (countRepeat data r1 1)))) (u8_at data r1))"
      if c: "r1 < length data \<and> lc < MAX_RUN_LENGTH" for s
      unfolding S1_def by (subst step) (simp only: c if_True simp_thms)
    have step_norep: "compress_ctx_loop data r s = compress_ctx_loop data r1 (S1 s)"
      if c: "\<not> (r1 < length data \<and> lc < MAX_RUN_LENGTH)" for s
      unfolding S1_def by (subst step) (simp only: c if_False simp_thms)
    show ?thesis
    proof (cases "r1 < length data \<and> lc < MAX_RUN_LENGTH")
      case rep: True
      define k where "k = countRepeat data r1 1"
      define h :: byte where "h = of_int (257 - int k)"
      have k: "2 \<le> k" "k \<le> 128" "r1 + k \<le> length data"
        "drop r1 data = replicate k (data ! r1) @ drop (r1 + k) data"
        using countRepeat_1 [of r1 data] rep ex(3) by (simp_all add: k_def MAX_RUN_LENGTH_def)
      have "\<exists>vs. (\<forall>s. compress_ctx_loop data (r1 + k) s = foldl put s vs)
                 \<and> chunk vs (drop (r1 + k) data)"
        by (rule less.hyps) (use True df k in arith)+
      then obtain vs where vs: "\<forall>s. compress_ctx_loop data (r1 + k) s = foldl put s vs"
        "chunk vs (drop (r1 + k) data)" by blast
      have b: "u8_at data r1 = data ! r1" using rep by (simp add: u8_at_def)
      have st: "\<forall>s. compress_ctx_loop data r s = foldl put s (vsL @ [h, data ! r1] @ vs)"
      proof
        fix s
        have "compress_ctx_loop data r s
              = compress_ctx_loop data (r1 + k) (put (put (S1 s) h) (data ! r1))"
          using step_rep [OF rep, of s] unfolding k_def [symmetric] h_def [symmetric] b .
        also have "\<dots> = foldl put (put (put (S1 s) h) (data ! r1)) vs" using vs(1) by blast
        finally show "compress_ctx_loop data r s = foldl put s (vsL @ [h, data ! r1] @ vs)"
          by (simp add: SL)
      qed
      have "chunk [h, data ! r1] (replicate k (data ! r1))"
        unfolding h_def using k(1,2) by (rule chunk_repeat)
      then have "chunk ([h, data ! r1] @ vs) (replicate k (data ! r1) @ drop (r1 + k) data)"
        using vs(2) by (rule chunk_append)
      with cL have "chunk (vsL @ [h, data ! r1] @ vs)
                      (lits @ replicate k (data ! r1) @ drop (r1 + k) data)"
        by (rule chunk_append)
      then have "chunk (vsL @ [h, data ! r1] @ vs) (drop r data)"
        unfolding d1 k(4) [symmetric] .
      with st show ?thesis by blast
    next
      case norep: False
      have pr: "r < r1"
      proof (cases "r1 < length data")
        case False
        with True show ?thesis by simp
      next
        case True
        with norep have "lc \<ge> 128" by (simp add: MAX_RUN_LENGTH_def)
        with rl show ?thesis by simp
      qed
      have "\<exists>vs. (\<forall>s. compress_ctx_loop data r1 s = foldl put s vs) \<and> chunk vs (drop r1 data)"
        by (rule less.hyps) (use True pr ex in arith)+
      then obtain vs where vs: "\<forall>s. compress_ctx_loop data r1 s = foldl put s vs"
        "chunk vs (drop r1 data)" by blast
      have st: "\<forall>s. compress_ctx_loop data r s = foldl put s (vsL @ vs)"
      proof
        fix s
        have "compress_ctx_loop data r s = compress_ctx_loop data r1 (S1 s)"
          using norep by (rule step_norep)
        also have "\<dots> = foldl put (S1 s) vs" using vs(1) by blast
        finally show "compress_ctx_loop data r s = foldl put s (vsL @ vs)"
          by (simp add: SL)
      qed
      from cL vs(2) have "chunk (vsL @ vs) (lits @ drop r1 data)" by (rule chunk_append)
      then have "chunk (vsL @ vs) (drop r data)" unfolding d1 .
      with st show ?thesis by blast
    qed
  qed
qed

section \<open>The encoders as a whole\<close>

lemma slice_foldl_put:
  assumes "length vs \<le> N"
  shows "(case foldl put (replicate N 0, 0) vs of (result, writeIndex) \<Rightarrow> take writeIndex result) = vs"
proof -
  have "fst (foldl put (replicate N 0, 0) vs) = vs @ drop (length vs) (replicate N 0)"
    using assms fst_foldl_put [of 0 vs "replicate N 0"] by simp
  moreover have "snd (foldl put (replicate N 0, 0) vs) = length vs"
    by (simp add: snd_foldl_put)
  ultimately show ?thesis by (simp add: case_prod_beta)
qed

lemma compress_chunk: "unpack True (compress data) = Some data
  \<and> 128 \<notin> set (headers (compress data)) \<and> length (compress data) \<le> 2 * length data"
proof -
  obtain vs where vs: "\<forall>s. compress_loop data 0 s = foldl put s vs"
    "length vs \<le> 2 * (length data - 0)" "unpack True vs = Some (drop 0 data)"
    "128 \<notin> set (headers vs)"
    using compress_loop_runs [of 0 data] by blast
  have "compress data = vs"
    unfolding compress_def using vs(1,2) by (simp add: slice_foldl_put)
  with vs show ?thesis by simp
qed

lemma compress_ctx_chunk: "chunk (compress_ctx data) data"
proof -
  obtain vs where vs: "\<forall>s. compress_ctx_loop data 0 s = foldl put s vs" "chunk vs (drop 0 data)"
    using compress_ctx_loop_runs [of 0 data] by blast
  then have "length vs \<le> 2 * length data" by (simp add: chunk_def)
  then have "compress_ctx data = vs"
    unfolding compress_ctx_def using vs(1) by (simp add: slice_foldl_put)
  with vs show ?thesis by simp
qed

text \<open>Runs of equal bytes: the scans stop at the end of the input or at 128 bytes.\<close>

lemma scanRun_replicate:
  "runStart \<le> r \<Longrightarrow> r < n \<Longrightarrow> r \<le> runStart + 127 \<Longrightarrow>
   scanRun (replicate n b) runStart r = min (n - 1) (runStart + 127)"
proof (induction "n - r" arbitrary: r rule: less_induct)
  case less
  show ?case
  proof (cases "r + 1 < n \<and> r - runStart < 127")
    case True
    then have "scanRun (replicate n b) runStart r = scanRun (replicate n b) runStart (r + 1)"
      by (subst scanRun.simps) (simp add: MAX_RUN_LENGTH_def)
    also have "\<dots> = min (n - 1) (runStart + 127)"
      by (rule less.hyps) (use True less.prems in arith)+
    finally show ?thesis .
  next
    case False
    then have "scanRun (replicate n b) runStart r = r"
      by (subst scanRun.simps) (auto simp: MAX_RUN_LENGTH_def)
    with False less.prems show ?thesis by arith
  qed
qed

lemma countRepeat_replicate:
  "1 \<le> c \<Longrightarrow> r + c \<le> n \<Longrightarrow> c \<le> 128 \<Longrightarrow>
   countRepeat (replicate n b) r c = min 128 (n - r)"
proof (induction "n - (r + c)" arbitrary: c rule: less_induct)
  case less
  show ?case
  proof (cases "r + c < n \<and> c < 128")
    case True
    then have "countRepeat (replicate n b) r c = countRepeat (replicate n b) r (c + 1)"
      by (subst countRepeat.simps) (simp add: MAX_RUN_LENGTH_def)
    also have "\<dots> = min 128 (n - r)"
      by (rule less.hyps) (use True less.prems in arith)+
    finally show ?thesis .
  next
    case False
    then have "countRepeat (replicate n b) r c = c"
      by (subst countRepeat.simps) (auto simp: MAX_RUN_LENGTH_def)
    with False less.prems show ?thesis by arith
  qed
qed

lemma compress_eqI:
  assumes "\<And>s. compress_loop data 0 s = foldl put s vs" "length vs \<le> 2 * length data"
  shows "compress data = vs"
  unfolding compress_def assms(1) using assms(2) by (rule slice_foldl_put)

lemma compress_ctx_eqI:
  assumes "\<And>s. compress_ctx_loop data 0 s = foldl put s vs" "length vs \<le> 2 * length data"
  shows "compress_ctx data = vs"
  unfolding compress_ctx_def assms(1) using assms(2) by (rule slice_foldl_put)

lemma compress_replicate_128: "compress (replicate 128 b) = [0x81, b]"
proof -
  let ?d = "replicate 128 b"
  have sr: "scanRun ?d 0 0 = 127" using scanRun_replicate [of 0 0 128 b] by simp
  have "compress_loop ?d 0 s = foldl put s [0x81, b]" for s
  proof -
    have "compress_loop ?d 0 s = compress_loop ?d 128 (put (put s 0x81) b)"
      using compress_loop_repeat [of 0 ?d s] by (simp add: sr u8_at_def)
    also have "\<dots> = put (put s 0x81) b" by (simp add: compress_loop_end)
    finally show ?thesis by simp
  qed
  then show ?thesis by (rule compress_eqI) simp
qed

lemma compress_replicate_129: "compress (replicate 129 b) = [0x81, b, 0x00, b]"
proof -
  let ?d = "replicate 129 b"
  have sr: "scanRun ?d 0 0 = 127" using scanRun_replicate [of 0 0 129 b] by simp
  have sr2: "scanRun ?d 128 128 = 128" using scanRun_replicate [of 128 128 129 b] by simp
  have cl: "collectLiteral ?d 128 0 = (129, 1)"
    by (subst collectLiteral.simps, simp add: MAX_RUN_LENGTH_def)
       (subst collectLiteral.simps, simp)
  have wl: "writeLiteral ?d 128 (Suc 0) 0 s = put s b" for s
    by (simp add: writeLiteral_foldl u8_at_def)
  have "compress_loop ?d 0 s = foldl put s [0x81, b, 0x00, b]" for s
  proof -
    have "compress_loop ?d 0 s = compress_loop ?d 128 (put (put s 0x81) b)"
      using compress_loop_repeat [of 0 ?d s] by (simp add: sr u8_at_def)
    also have "\<dots> = compress_loop ?d 129 (put (put (put (put s 0x81) b) 0x00) b)"
      using compress_loop_literal [of 128 ?d "put (put s 0x81) b"] by (simp add: sr2 cl wl)
    also have "\<dots> = put (put (put (put s 0x81) b) 0x00) b" by (simp add: compress_loop_end)
    finally show ?thesis by simp
  qed
  then show ?thesis by (rule compress_eqI) simp
qed

lemma absorbLiteral_break:
  "r < length data \<Longrightarrow> lc < 128 \<Longrightarrow>
   3 \<le> countRepeat data r 1 \<or> countRepeat data r 1 = 2 \<and> lc = 0 \<Longrightarrow>
   absorbLiteral data r lc = (r, lc)"
  by (subst absorbLiteral.simps) (auto simp: Let_def MAX_RUN_LENGTH_def)

lemma compress_ctx_replicate_128: "compress_ctx (replicate 128 b) = [0x81, b]"
proof -
  let ?d = "replicate 128 b"
  have cr: "countRepeat ?d 0 1 = 128" using countRepeat_replicate [of 1 0 128 b] by simp
  have al: "absorbLiteral ?d 0 0 = (0, 0)" by (rule absorbLiteral_break) (use cr in simp_all)
  have "compress_ctx_loop ?d 0 s = foldl put s [0x81, b]" for s
  proof -
    have "compress_ctx_loop ?d 0 s = compress_ctx_loop ?d 128 (put (put s 0x81) b)"
      using compress_ctx_loop_step [of 0 ?d s] cr
      by (simp add: al u8_at_def MAX_RUN_LENGTH_def)
    also have "\<dots> = put (put s 0x81) b" by (simp add: compress_ctx_loop_end)
    finally show ?thesis by simp
  qed
  then show ?thesis by (rule compress_ctx_eqI) simp
qed

lemma compress_ctx_replicate_129: "compress_ctx (replicate 129 b) = [0x81, b, 0x00, b]"
proof -
  let ?d = "replicate 129 b"
  have cr: "countRepeat ?d 0 1 = 128" using countRepeat_replicate [of 1 0 129 b] by simp
  have cr2: "countRepeat ?d 128 1 = 1" using countRepeat_replicate [of 1 128 129 b] by simp
  have al: "absorbLiteral ?d 0 0 = (0, 0)" by (rule absorbLiteral_break) (use cr in simp_all)
  have al2: "absorbLiteral ?d 128 0 = (129, 1)"
    using cr2
    by (subst absorbLiteral.simps, simp add: Let_def MAX_RUN_LENGTH_def)
       (subst absorbLiteral.simps, simp)
  have wl: "writeLiteral ?d 128 (Suc 0) 0 s = put s b" for s
    by (simp add: writeLiteral_foldl u8_at_def)
  have "compress_ctx_loop ?d 0 s = foldl put s [0x81, b, 0x00, b]" for s
  proof -
    have "compress_ctx_loop ?d 0 s = compress_ctx_loop ?d 128 (put (put s 0x81) b)"
      using compress_ctx_loop_step [of 0 ?d s] cr
      by (simp add: al u8_at_def MAX_RUN_LENGTH_def)
    also have "\<dots> = compress_ctx_loop ?d 129 (put (put (put (put s 0x81) b) 0x00) b)"
      using compress_ctx_loop_step [of 128 ?d "put (put s 0x81) b"]
      by (simp add: al2 wl MAX_RUN_LENGTH_def)
    also have "\<dots> = put (put (put (put s 0x81) b) 0x00) b" by (simp add: compress_ctx_loop_end)
    finally show ?thesis by simp
  qed
  then show ?thesis by (rule compress_ctx_eqI) simp
qed

section \<open>Output lengths of the two list-free encoders\<close>

text \<open>
  \<open>mlen data r\<close> and \<open>clen data r\<close>: the number of bytes the outer loop of the
  boundary-only and of the context-aware encoder writes from position \<open>r\<close> on;
  \<open>runAt data r\<close>: the length of the run of equal bytes at \<open>r\<close>, at most 128.
\<close>

definition mlen :: "byte list \<Rightarrow> nat \<Rightarrow> nat" where
  "mlen data r = snd (compress_loop data r ([], 0))"

definition clen :: "byte list \<Rightarrow> nat \<Rightarrow> nat" where
  "clen data r = snd (compress_ctx_loop data r ([], 0))"

definition runAt :: "byte list \<Rightarrow> nat \<Rightarrow> nat" where
  "runAt data r = countRepeat data r 1"

lemma snd_compress_loop:
  assumes "r \<le> length data"
  shows "snd (compress_loop data r s) = snd s + mlen data r"
proof -
  obtain vs where vs: "\<forall>s. compress_loop data r s = foldl put s vs"
    using compress_loop_runs [OF assms] by blast
  note eq = vs [rule_format]
  have "mlen data r = length vs" by (simp add: mlen_def eq snd_foldl_put)
  then show ?thesis by (simp add: eq snd_foldl_put)
qed

lemma snd_compress_ctx_loop:
  assumes "r \<le> length data"
  shows "snd (compress_ctx_loop data r s) = snd s + clen data r"
proof -
  obtain vs where vs: "\<forall>s. compress_ctx_loop data r s = foldl put s vs"
    using compress_ctx_loop_runs [OF assms] by blast
  note eq = vs [rule_format]
  have "clen data r = length vs" by (simp add: clen_def eq snd_foldl_put)
  then show ?thesis by (simp add: eq snd_foldl_put)
qed

lemma length_compress: "length (compress data) = mlen data 0"
proof -
  obtain vs where vs: "\<forall>s. compress_loop data 0 s = foldl put s vs"
    "length vs \<le> 2 * (length data - 0)"
    using compress_loop_runs [of 0 data] by blast
  note eq = vs(1) [rule_format]
  have "compress data = vs" by (rule compress_eqI) (use vs(2) in \<open>simp_all add: eq\<close>)
  moreover have "mlen data 0 = length vs" by (simp add: mlen_def eq snd_foldl_put)
  ultimately show ?thesis by simp
qed

lemma length_compress_ctx: "length (compress_ctx data) = clen data 0"
proof -
  obtain vs where vs: "\<forall>s. compress_ctx_loop data 0 s = foldl put s vs" "chunk vs (drop 0 data)"
    using compress_ctx_loop_runs [of 0 data] by blast
  then have "length vs \<le> 2 * length data" by (simp add: chunk_def)
  note eq = vs(1) [rule_format]
  from \<open>length vs \<le> 2 * length data\<close>
  have "compress_ctx data = vs" by (intro compress_ctx_eqI) (simp_all add: eq)
  moreover have "clen data 0 = length vs" by (simp add: clen_def eq snd_foldl_put)
  ultimately show ?thesis by simp
qed

lemma snd_put: "snd (put s v) = snd s + 1"
  by (simp add: put_def case_prod_beta)

lemma snd_writeLiteral: "snd (writeLiteral data start count 0 s) = snd s + count"
  by (simp add: writeLiteral_foldl snd_foldl_put)

lemma scanRun_countRepeat_gen:
  "rs \<le> r \<Longrightarrow> r < length data \<Longrightarrow> r - rs \<le> 127 \<Longrightarrow>
   (\<forall>i. rs \<le> i \<and> i \<le> r \<longrightarrow> data ! i = data ! rs) \<Longrightarrow>
   scanRun data rs r + 1 = rs + countRepeat data rs (r - rs + 1)"
proof (induction "length data - r" arbitrary: r rule: less_induct)
  case less
  have same: "data ! r = data ! rs" using less.prems by blast
  have idx: "rs + (r - rs + 1) = r + 1" using less.prems(1) by simp
  show ?case
  proof (cases "r + 1 < length data \<and> data ! r = data ! (r + 1) \<and> r - rs < 127")
    case True
    then have s: "scanRun data rs r = scanRun data rs (r + 1)"
      by (subst scanRun.simps) (simp add: MAX_RUN_LENGTH_def)
    from True same have "rs + (r - rs + 1) < length data
        \<and> data ! (rs + (r - rs + 1)) = data ! rs \<and> r - rs + 1 < MAX_RUN_LENGTH"
      unfolding idx MAX_RUN_LENGTH_def by simp
    then have c: "countRepeat data rs (r - rs + 1) = countRepeat data rs (r - rs + 1 + 1)"
      by (subst countRepeat.simps) (simp only: if_True simp_thms)
    have all: "\<forall>i. rs \<le> i \<and> i \<le> r + 1 \<longrightarrow> data ! i = data ! rs"
    proof (intro allI impI)
      fix i assume i: "rs \<le> i \<and> i \<le> r + 1"
      show "data ! i = data ! rs"
      proof (cases "i \<le> r")
        case True
        with i less.prems(4) show ?thesis by blast
      next
        case False
        with i have "i = r + 1" by simp
        with \<open>r + 1 < length data \<and> data ! r = data ! (r + 1) \<and> r - rs < 127\<close> same
        show ?thesis by simp
      qed
    qed
    have "scanRun data rs (r + 1) + 1 = rs + countRepeat data rs (r + 1 - rs + 1)"
    proof (rule less.hyps)
      show "length data - (r + 1) < length data - r" using True by arith
      show "rs \<le> r + 1" using less.prems(1) by simp
      show "r + 1 < length data" using True by simp
      show "r + 1 - rs \<le> 127" using True less.prems(1) by arith
      show "\<forall>i. rs \<le> i \<and> i \<le> r + 1 \<longrightarrow> data ! i = data ! rs" by (rule all)
    qed
    moreover have "r + 1 - rs + 1 = r - rs + 1 + 1" using less.prems(1) by simp
    ultimately show ?thesis unfolding s c by simp
  next
    case False
    then have s: "scanRun data rs r = r" by (subst scanRun.simps) (auto simp: MAX_RUN_LENGTH_def)
    from False same have "\<not> (rs + (r - rs + 1) < length data
        \<and> data ! (rs + (r - rs + 1)) = data ! rs \<and> r - rs + 1 < MAX_RUN_LENGTH)"
      unfolding idx MAX_RUN_LENGTH_def by auto
    then have c: "countRepeat data rs (r - rs + 1) = r - rs + 1"
      by (subst countRepeat.simps) (simp only: if_False simp_thms)
    show ?thesis unfolding s c using less.prems(1) by simp
  qed
qed

lemma scanRun_runAt: "r < length data \<Longrightarrow> scanRun data r r + 1 = r + runAt data r"
proof -
  assume r: "r < length data"
  have "scanRun data r r + 1 = r + countRepeat data r (r - r + 1)"
  proof (rule scanRun_countRepeat_gen)
    show "r \<le> r" by simp
    show "r < length data" by (rule r)
    show "r - r \<le> 127" by simp
    show "\<forall>i. r \<le> i \<and> i \<le> r \<longrightarrow> data ! i = data ! r" by auto
  qed
  then show ?thesis by (simp add: runAt_def)
qed

lemma runAt_bounds: "r < length data \<Longrightarrow> 1 \<le> runAt data r \<and> r + runAt data r \<le> length data"
  using countRepeat_1 [of r data] by (simp add: runAt_def)

lemma runAt_one_iff:
  "r < length data \<Longrightarrow> runAt data r = 1 \<longleftrightarrow> (r + 1 = length data \<or> data ! r \<noteq> data ! (r + 1))"
proof -
  assume r: "r < length data"
  show ?thesis
  proof (cases "r + 1 < length data \<and> data ! (r + 1) = data ! r")
    case True
    then have "countRepeat data r 1 = countRepeat data r (1 + 1)"
      by (subst countRepeat.simps) (simp add: MAX_RUN_LENGTH_def)
    moreover have "1 + 1 \<le> countRepeat data r (1 + 1)" by (rule countRepeat_ge)
    ultimately show ?thesis using True by (auto simp: runAt_def)
  next
    case False
    then have "countRepeat data r 1 = 1"
      by (subst countRepeat.simps) (auto simp: MAX_RUN_LENGTH_def)
    with False r show ?thesis by (auto simp: runAt_def)
  qed
qed


text \<open>
  \<open>mlenLit data i c\<close> and \<open>clenLit data i lc\<close>: the bytes still to be written when
  the encoder is inside its literal loop at position \<open>i\<close> with \<open>c\<close> (or \<open>lc\<close>)
  literal bytes collected, the header of that literal run not counted.
\<close>

definition mlenLit :: "byte list \<Rightarrow> nat \<Rightarrow> nat \<Rightarrow> nat" where
  "mlenLit data i c = (snd (collectLiteral data i c) - c) + mlen data (fst (collectLiteral data i c))"

definition clenLit :: "byte list \<Rightarrow> nat \<Rightarrow> nat \<Rightarrow> nat" where
  "clenLit data i lc =
     (snd (absorbLiteral data i lc) - lc)
     + (if fst (absorbLiteral data i lc) < length data \<and> snd (absorbLiteral data i lc) < MAX_RUN_LENGTH
        then 2 + clen data (fst (absorbLiteral data i lc) + runAt data (fst (absorbLiteral data i lc)))
        else clen data (fst (absorbLiteral data i lc)))"

lemma mlen_end: "\<not> r < length data \<Longrightarrow> mlen data r = 0"
  by (simp add: mlen_def compress_loop_end)

lemma clen_end: "\<not> r < length data \<Longrightarrow> clen data r = 0"
  by (simp add: clen_def compress_ctx_loop_end)

lemma mlen_repeat:
  assumes "r < length data" "2 \<le> runAt data r"
  shows "mlen data r = 2 + mlen data (r + runAt data r)"
proof -
  have sr: "scanRun data r r + 1 = r + runAt data r" using assms(1) by (rule scanRun_runAt)
  with assms(2) have gt: "r < scanRun data r r" by simp
  have le: "r + runAt data r \<le> length data" using runAt_bounds [OF assms(1)] by simp
  show ?thesis
    unfolding mlen_def [of data r] compress_loop_repeat [OF assms(1) gt] sr
      snd_compress_loop [OF le]
    by (simp add: snd_put)
qed

lemma mlen_literal:
  assumes "r < length data" "runAt data r = 1"
  shows "mlen data r = 1 + mlenLit data r 0"
proof -
  have "scanRun data r r + 1 = r + runAt data r" using assms(1) by (rule scanRun_runAt)
  with assms(2) have e: "scanRun data r r = r" by simp
  have le: "fst (collectLiteral data r 0) \<le> length data"
    using collectLiteral_count [of r data 0] assms(1) by simp
  show ?thesis
    unfolding mlen_def [of data r] compress_loop_literal [OF assms(1) e]
      snd_compress_loop [OF le] mlenLit_def
    by (simp add: snd_put snd_writeLiteral)
qed

lemma mlenLit_step:
  assumes "i < length data" "c < 128" "runAt data i = 1"
  shows "mlenLit data i c = 1 + mlenLit data (i + 1) (c + 1)"
proof -
  have "i + 1 = length data \<or> data ! i \<noteq> data ! (i + 1)"
    using runAt_one_iff [OF assms(1)] assms(3) by blast
  with assms(1,2) have e: "collectLiteral data i c = collectLiteral data (i + 1) (c + 1)"
    by (subst collectLiteral.simps) (simp add: MAX_RUN_LENGTH_def)
  have "c + 1 \<le> snd (collectLiteral data (i + 1) (c + 1))"
    using collectLiteral_count [of "i + 1" data "c + 1"] assms(1,2) by simp
  then show ?thesis unfolding mlenLit_def e by simp
qed

lemma mlenLit_stop:
  assumes "\<not> i < length data \<or> \<not> c < 128 \<or> runAt data i \<noteq> 1"
  shows "mlenLit data i c = mlen data i"
proof -
  have "\<not> (i < length data \<and> c < MAX_RUN_LENGTH
            \<and> (i + 1 = length data \<or> data ! i \<noteq> data ! (i + 1)))"
    using assms runAt_one_iff [of i data] by (auto simp: MAX_RUN_LENGTH_def)
  then have "collectLiteral data i c = (i, c)"
    by (subst collectLiteral.simps) (simp only: if_False)
  then show ?thesis by (simp add: mlenLit_def)
qed

lemma snd_literal_part:
  "snd (if 0 < lc then writeLiteral data r lc 0 (put s h) else s)
   = snd s + (if 0 < lc then 1 + lc else 0)"
  by (simp add: snd_put snd_writeLiteral)

lemma clen_step:
  assumes "r < length data"
  shows "clen data r = (if 0 < snd (absorbLiteral data r 0) then 1 else 0) + clenLit data r 0"
proof -
  define r1 where "r1 = fst (absorbLiteral data r 0)"
  define lc where "lc = snd (absorbLiteral data r 0)"
  define S where "S = (if 0 < lc
      then writeLiteral data r lc 0 (put ([], 0) (of_int (int lc - 1))) else ([], 0))"
  have sS: "snd S = (if 0 < lc then 1 + lc else 0)"
    unfolding S_def by (simp only: snd_literal_part snd_conv add_0)
  have ex: "r1 \<le> length data"
    using absorbLiteral_exit [of r data 0] assms by (simp_all add: r1_def lc_def)
  note step = compress_ctx_loop_step [OF assms, of "([], 0)", folded r1_def lc_def, folded S_def]
  show ?thesis
  proof (cases "r1 < length data \<and> lc < MAX_RUN_LENGTH")
    case True
    define k where "k = countRepeat data r1 1"
    have le: "r1 + k \<le> length data"
      using countRepeat_1 [of r1 data] True by (simp add: k_def)
    have "compress_ctx_loop data r ([], 0)
          = compress_ctx_loop data (r1 + k) (put (put S (of_int (257 - int k))) (u8_at data r1))"
      unfolding k_def by (subst step) (simp only: True if_True simp_thms)
    then have "clen data r = snd S + 2 + clen data (r1 + k)"
      unfolding clen_def [of data r] by (simp add: snd_compress_ctx_loop [OF le] snd_put)
    moreover have "clenLit data r 0 = lc + (2 + clen data (r1 + k))"
      unfolding clenLit_def r1_def [symmetric] lc_def [symmetric] runAt_def k_def [symmetric]
      using True by simp
    ultimately show ?thesis unfolding lc_def [symmetric] sS by simp
  next
    case False
    have "compress_ctx_loop data r ([], 0) = compress_ctx_loop data r1 S"
      by (subst step) (simp only: False if_False simp_thms)
    then have "clen data r = snd S + clen data r1"
      unfolding clen_def [of data r] by (simp add: snd_compress_ctx_loop [OF ex])
    moreover have "clenLit data r 0 = lc + clen data r1"
      unfolding clenLit_def r1_def [symmetric] lc_def [symmetric]
      by (simp only: False if_False diff_zero)
    ultimately show ?thesis unfolding lc_def [symmetric] sS by simp
  qed
qed

lemma clenLit_break:
  assumes "i < length data" "lc < 128" "3 \<le> runAt data i \<or> runAt data i = 2 \<and> lc = 0"
  shows "clenLit data i lc = 2 + clen data (i + runAt data i)"
proof -
  have "absorbLiteral data i lc = (i, lc)"
    using assms unfolding runAt_def by (rule absorbLiteral_break)
  with assms(1,2) show ?thesis by (simp add: clenLit_def MAX_RUN_LENGTH_def)
qed

lemma absorbLiteral_absorb:
  "i < length data \<Longrightarrow> lc < 128 \<Longrightarrow>
   \<not> (3 \<le> countRepeat data i 1 \<or> countRepeat data i 1 = 2 \<and> lc = 0) \<Longrightarrow>
   absorbLiteral data i lc =
     absorbLiteral data (i + min (countRepeat data i 1) (128 - lc))
       (lc + min (countRepeat data i 1) (128 - lc))"
  by (subst absorbLiteral.simps) (auto simp: Let_def MAX_RUN_LENGTH_def)

lemma clenLit_absorb:
  assumes "i < length data" "lc < 128"
    "\<not> (3 \<le> runAt data i \<or> runAt data i = 2 \<and> lc = 0)" "runAt data i \<le> 128 - lc"
  shows "clenLit data i lc = runAt data i + clenLit data (i + runAt data i) (lc + runAt data i)"
proof -
  define k where "k = runAt data i"
  have m: "min (countRepeat data i 1) (128 - lc) = k"
    using assms(4) by (simp add: runAt_def k_def)
  have e: "absorbLiteral data i lc = absorbLiteral data (i + k) (lc + k)"
    using absorbLiteral_absorb [OF assms(1,2) assms(3) [unfolded runAt_def]] unfolding m .
  have "lc + k \<le> snd (absorbLiteral data (i + k) (lc + k))"
    using absorbLiteral_diff [of data "i + k" "lc + k"] by simp
  then show ?thesis
    unfolding k_def [symmetric] clenLit_def [of data i lc] e clenLit_def [of data "i + k"] by simp
qed

lemma clenLit_stop:
  assumes "\<not> (i < length data \<and> lc < 128)"
  shows "clenLit data i lc = clen data i"
proof -
  have "absorbLiteral data i lc = (i, lc)"
    using assms by (subst absorbLiteral.simps) (auto simp: MAX_RUN_LENGTH_def)
  with assms show ?thesis by (auto simp: clenLit_def MAX_RUN_LENGTH_def)
qed

lemma clen_repeat:
  assumes "r < length data" "2 \<le> runAt data r"
  shows "clen data r = 2 + clen data (r + runAt data r)"
proof -
  have b: "3 \<le> runAt data r \<or> runAt data r = 2 \<and> (0::nat) = 0" using assms(2) by arith
  have "absorbLiteral data r 0 = (r, 0)"
    using assms(1) b unfolding runAt_def by (intro absorbLiteral_break) simp_all
  then show ?thesis
    using clen_step [OF assms(1)] clenLit_break [OF assms(1) _ b] by simp
qed

lemma clen_literal:
  assumes "r < length data" "runAt data r = 1"
  shows "clen data r = 2 + clenLit data (r + 1) 1"
proof -
  have nb: "\<not> (3 \<le> runAt data r \<or> runAt data r = 2 \<and> (0::nat) = 0)" using assms(2) by simp
  have e: "absorbLiteral data r 0 = absorbLiteral data (r + 1) 1"
    using assms
    by (subst absorbLiteral.simps) (simp add: Let_def MAX_RUN_LENGTH_def runAt_def)
  have "1 \<le> snd (absorbLiteral data (r + 1) 1)"
    using absorbLiteral_diff [of data "r + 1" 1] by simp
  then have pos: "0 < snd (absorbLiteral data r 0)" unfolding e by simp
  have "clenLit data r 0 = 1 + clenLit data (r + 1) 1"
    using clenLit_absorb [OF assms(1) _ nb] assms(2) by simp
  with pos show ?thesis using clen_step [OF assms(1)] by simp
qed


section \<open>Pairs split at the cap of a literal run\<close>

text \<open>
  The absorbing loop of the context-aware encoder takes
  \<^verbatim>\<open>bytesToAbsorb = Math.min(repeatCount, MAX_RUN_LENGTH - literalCount)\<close> bytes of a
  short repeat. When that is fewer than \<open>repeatCount\<close> the repeat is split: its first
  byte fills the literal run and its second byte starts the next run.
  \<open>absorbLiteral_splits\<close> and \<open>compress_ctx_splits\<close> are the two loops of that encoder
  with the same tests and the same steps, counting these iterations instead of writing;
  \<open>splitPairs data\<close> is their number over the whole input.
\<close>

function absorbLiteral_splits :: "byte list \<Rightarrow> nat \<Rightarrow> nat \<Rightarrow> nat" where
  "absorbLiteral_splits data readIndex literalCount =
     (if readIndex < length data \<and> literalCount < MAX_RUN_LENGTH then
        (let repeatCount = countRepeat data readIndex 1;
             isAtLiteralStart = (literalCount = 0);
             shouldStartRepeatRun = (repeatCount \<ge> 3 \<or> (repeatCount = 2 \<and> isAtLiteralStart))
         in if shouldStartRepeatRun then 0
            else
              (let bytesToAbsorb = min repeatCount (MAX_RUN_LENGTH - literalCount)
               in (if bytesToAbsorb < repeatCount then 1 else 0)
                  + absorbLiteral_splits data (readIndex + bytesToAbsorb)
                      (literalCount + bytesToAbsorb)))
      else 0)"
  by pat_completeness auto
termination
proof (relation "measure (\<lambda>(data, readIndex, literalCount). length data - readIndex)", goal_cases)
  case 1
  show ?case by simp
next
  case (2 data readIndex literalCount repeatCount isAtLiteralStart shouldStartRepeatRun bytesToAbsorb)
  have "1 \<le> countRepeat data readIndex 1" by (rule countRepeat_ge)
  with 2 show ?case by (auto simp: min_def MAX_RUN_LENGTH_def)
qed

declare absorbLiteral_splits.simps [simp del]

function compress_ctx_splits :: "byte list \<Rightarrow> nat \<Rightarrow> nat" where
  "compress_ctx_splits data readIndex =
     (if readIndex < length data then
        (let rc = absorbLiteral data readIndex 0;
             readIndex1 = fst rc;
             literalCount = snd rc;
             splits = absorbLiteral_splits data readIndex 0
         in if readIndex1 < length data \<and> literalCount < MAX_RUN_LENGTH then
              (let repeatCount = countRepeat data readIndex1 1
               in splits + compress_ctx_splits data (readIndex1 + repeatCount))
            else splits + compress_ctx_splits data readIndex1)
      else 0)"
  by pat_completeness auto
termination
proof (relation "measure (\<lambda>(data, readIndex). length data - readIndex)", goal_cases)
  case 1
  show ?case by simp
next
  case (2 data readIndex rc readIndex1 literalCount splits repeatCount)
  have "1 \<le> countRepeat data (fst (absorbLiteral data readIndex 0)) 1" by (rule countRepeat_ge)
  moreover have "readIndex \<le> fst (absorbLiteral data readIndex 0)"
    using absorbLiteral_diff [of data readIndex 0] by simp
  ultimately show ?case using 2 by auto
next
  case (3 data readIndex rc readIndex1 literalCount splits)
  have d: "fst (absorbLiteral data readIndex 0) - readIndex = snd (absorbLiteral data readIndex 0) - 0"
    and g: "readIndex \<le> fst (absorbLiteral data readIndex 0)"
    using absorbLiteral_diff [of data readIndex 0] by simp_all
  from 3 have "\<not> fst (absorbLiteral data readIndex 0) < length data
               \<or> \<not> snd (absorbLiteral data readIndex 0) < MAX_RUN_LENGTH" by simp
  then show ?case
  proof
    assume "\<not> fst (absorbLiteral data readIndex 0) < length data"
    with 3 show ?thesis by simp
  next
    assume "\<not> snd (absorbLiteral data readIndex 0) < MAX_RUN_LENGTH"
    then have "0 < snd (absorbLiteral data readIndex 0)" by (simp add: MAX_RUN_LENGTH_def)
    with d g have "readIndex < fst (absorbLiteral data readIndex 0)" by simp
    with 3 show ?thesis by simp
  qed
qed

declare compress_ctx_splits.simps [simp del]

definition splitPairs :: "byte list \<Rightarrow> nat" where
  "splitPairs data = compress_ctx_splits data 0"


text \<open>
  \<open>slenLit data i lc\<close>: the splits still to come when the encoder is inside its
  literal loop at position \<open>i\<close> with \<open>lc\<close> literal bytes collected.
\<close>

definition slenLit :: "byte list \<Rightarrow> nat \<Rightarrow> nat \<Rightarrow> nat" where
  "slenLit data i lc =
     absorbLiteral_splits data i lc
     + (if fst (absorbLiteral data i lc) < length data \<and> snd (absorbLiteral data i lc) < MAX_RUN_LENGTH
        then compress_ctx_splits data (fst (absorbLiteral data i lc) + runAt data (fst (absorbLiteral data i lc)))
        else compress_ctx_splits data (fst (absorbLiteral data i lc)))"

lemma compress_ctx_splits_end: "\<not> r < length data \<Longrightarrow> compress_ctx_splits data r = 0"
  by (subst compress_ctx_splits.simps) simp

lemma compress_ctx_splits_step:
  "r < length data \<Longrightarrow> compress_ctx_splits data r = slenLit data r 0"
  by (subst compress_ctx_splits.simps) (simp add: slenLit_def Let_def runAt_def)

lemma slenLit_stop:
  assumes "\<not> (i < length data \<and> lc < 128)"
  shows "slenLit data i lc = compress_ctx_splits data i"
proof -
  have "absorbLiteral data i lc = (i, lc)"
    using assms by (subst absorbLiteral.simps) (auto simp: MAX_RUN_LENGTH_def)
  moreover have "absorbLiteral_splits data i lc = 0"
    using assms by (subst absorbLiteral_splits.simps) (auto simp: MAX_RUN_LENGTH_def)
  ultimately show ?thesis using assms by (auto simp: slenLit_def MAX_RUN_LENGTH_def)
qed

lemma slenLit_break:
  assumes "i < length data" "lc < 128" "3 \<le> runAt data i \<or> runAt data i = 2 \<and> lc = 0"
  shows "slenLit data i lc = compress_ctx_splits data (i + runAt data i)"
proof -
  have "absorbLiteral data i lc = (i, lc)"
    using assms unfolding runAt_def by (rule absorbLiteral_break)
  moreover have "absorbLiteral_splits data i lc = 0"
    using assms unfolding runAt_def
    by (subst absorbLiteral_splits.simps) (auto simp: Let_def MAX_RUN_LENGTH_def)
  ultimately show ?thesis using assms(1,2) by (simp add: slenLit_def MAX_RUN_LENGTH_def)
qed

text \<open>
  A split happens only to a repeat of exactly two bytes that meets a literal run of 127
  bytes.
\<close>

lemma split_only_pair_at_cap:
  assumes "1 \<le> rc" "lc < 128" "\<not> (3 \<le> rc \<or> rc = 2 \<and> lc = 0)"
  shows "min rc (MAX_RUN_LENGTH - lc) < rc \<longleftrightarrow> rc = 2 \<and> lc = 127"
  using assms unfolding MAX_RUN_LENGTH_def by arith

lemma absorbLiteral_splits_absorb:
  "i < length data \<Longrightarrow> lc < 128 \<Longrightarrow>
   \<not> (3 \<le> countRepeat data i 1 \<or> countRepeat data i 1 = 2 \<and> lc = 0) \<Longrightarrow>
   absorbLiteral_splits data i lc =
     (if min (countRepeat data i 1) (128 - lc) < countRepeat data i 1 then 1 else 0)
     + absorbLiteral_splits data (i + min (countRepeat data i 1) (128 - lc))
         (lc + min (countRepeat data i 1) (128 - lc))"
  by (subst absorbLiteral_splits.simps) (auto simp: Let_def MAX_RUN_LENGTH_def)

lemma slenLit_absorb:
  assumes "i < length data" "lc < 128"
    "\<not> (3 \<le> runAt data i \<or> runAt data i = 2 \<and> lc = 0)" "runAt data i \<le> 128 - lc"
  shows "slenLit data i lc = slenLit data (i + runAt data i) (lc + runAt data i)"
proof -
  define k where "k = runAt data i"
  have m: "min (countRepeat data i 1) (128 - lc) = k"
    using assms(4) by (simp add: runAt_def k_def)
  have k: "countRepeat data i 1 = k" by (simp add: runAt_def k_def)
  have e: "absorbLiteral data i lc = absorbLiteral data (i + k) (lc + k)"
    using absorbLiteral_absorb [OF assms(1,2) assms(3) [unfolded runAt_def]] unfolding m .
  have f: "absorbLiteral_splits data i lc = absorbLiteral_splits data (i + k) (lc + k)"
    using absorbLiteral_splits_absorb [OF assms(1,2) assms(3) [unfolded runAt_def]] k
    unfolding m by simp
  show ?thesis
    unfolding k_def [symmetric] slenLit_def [of data i lc] e f slenLit_def [of data "i + k"] ..
qed

lemma slenLit_split:
  assumes "i < length data" "runAt data i = 2"
  shows "slenLit data i 127 = 1 + slenLit data (i + 1) 128"
proof -
  have k: "countRepeat data i 1 = 2" using assms(2) by (simp add: runAt_def)
  have nb: "\<not> (3 \<le> countRepeat data i 1 \<or> countRepeat data i 1 = 2 \<and> (127::nat) = 0)"
    unfolding k by simp
  have e: "absorbLiteral data i 127 = absorbLiteral data (i + 1) 128"
    using absorbLiteral_absorb [OF assms(1) _ nb] unfolding k by simp
  have f: "absorbLiteral_splits data i 127 = 1 + absorbLiteral_splits data (i + 1) 128"
    using absorbLiteral_splits_absorb [OF assms(1) _ nb] unfolding k by simp
  show ?thesis
    unfolding slenLit_def [of data i 127] e f slenLit_def [of data "i + 1"] by simp
qed

lemma clenLit_split:
  assumes "i < length data" "runAt data i = 2"
  shows "clenLit data i 127 = 1 + clenLit data (i + 1) 128"
proof -
  have k: "countRepeat data i 1 = 2" using assms(2) by (simp add: runAt_def)
  have nb: "\<not> (3 \<le> countRepeat data i 1 \<or> countRepeat data i 1 = 2 \<and> (127::nat) = 0)"
    unfolding k by simp
  have e: "absorbLiteral data i 127 = absorbLiteral data (i + 1) 128"
    using absorbLiteral_absorb [OF assms(1) _ nb] unfolding k by simp
  have "128 \<le> snd (absorbLiteral data (i + 1) 128)"
    using absorbLiteral_diff [of data "i + 1" 128] by simp
  then show ?thesis
    unfolding clenLit_def [of data i 127] e clenLit_def [of data "i + 1"] by simp
qed

lemma runAt_after_pair:
  assumes "i < length data" "runAt data i = 2"
  shows "i + 1 < length data \<and> runAt data (i + 1) = 1"
proof -
  have k: "countRepeat data i 1 = 2" using assms(2) by (simp add: runAt_def)
  have c1: "i + 1 < length data \<and> data ! (i + 1) = data ! i"
  proof (rule ccontr)
    assume "\<not> ?thesis"
    then have "countRepeat data i 1 = 1"
      by (subst countRepeat.simps) (auto simp: MAX_RUN_LENGTH_def)
    with k show False by simp
  qed
  then have k2: "countRepeat data i 1 = countRepeat data i (1 + 1)"
    by (subst countRepeat.simps) (simp add: MAX_RUN_LENGTH_def)
  have c2: "\<not> (i + 2 < length data \<and> data ! (i + 2) = data ! i)"
  proof
    assume a: "i + 2 < length data \<and> data ! (i + 2) = data ! i"
    then have "countRepeat data i (1 + 1) = countRepeat data i (1 + 1 + 1)"
      by (subst countRepeat.simps) (simp add: MAX_RUN_LENGTH_def)
    moreover have "1 + 1 + 1 \<le> countRepeat data i (1 + 1 + 1)" by (rule countRepeat_ge)
    ultimately show False using k k2 by simp
  qed
  have "runAt data (i + 1) = 1 \<longleftrightarrow> (i + 1 + 1 = length data \<or> data ! (i + 1) \<noteq> data ! (i + 1 + 1))"
    using c1 by (intro runAt_one_iff) simp
  with c1 c2 show ?thesis by (auto simp: numeral_2_eq_2)
qed

lemma compress_ctx_splits_repeat:
  assumes "r < length data" "2 \<le> runAt data r"
  shows "compress_ctx_splits data r = compress_ctx_splits data (r + runAt data r)"
proof -
  have b: "3 \<le> runAt data r \<or> runAt data r = 2 \<and> (0::nat) = 0" using assms(2) by arith
  show ?thesis
    using compress_ctx_splits_step [OF assms(1)] slenLit_break [OF assms(1) _ b] by simp
qed

lemma compress_ctx_splits_literal:
  assumes "r < length data" "runAt data r = 1"
  shows "compress_ctx_splits data r = slenLit data (r + 1) 1"
proof -
  have nb: "\<not> (3 \<le> runAt data r \<or> runAt data r = 2 \<and> (0::nat) = 0)" using assms(2) by simp
  have "slenLit data r 0 = slenLit data (r + 1) 1"
    using slenLit_absorb [OF assms(1) _ nb] assms(2) by simp
  then show ?thesis using compress_ctx_splits_step [OF assms(1)] by simp
qed

lemma clenLit_full: "clenLit data i 128 = clen data i"
  by (rule clenLit_stop) simp

lemma mlenLit_full: "mlenLit data i 128 = mlen data i"
  by (rule mlenLit_stop) simp

lemma slenLit_full: "slenLit data i 128 = compress_ctx_splits data i"
  by (rule slenLit_stop) simp


text \<open>
  The comparison of the two encoders, position by position. Both are somewhere in the
  input at position \<open>i\<close>, the context-aware one with \<open>lc\<close> bytes in its literal run,
  the boundary-only one with \<open>c\<close> (128 stands for no open literal run). What the
  context-aware encoder still writes is at most what the boundary-only encoder still
  writes, plus one byte for each split still to come, plus one byte when its literal
  run is the longer one.
\<close>

lemma ctx_le_boundary_only_gen:
  "i \<le> length data \<Longrightarrow> lc \<le> 128 \<Longrightarrow> c \<le> 128 \<Longrightarrow>
   clenLit data i lc \<le> mlenLit data i c + slenLit data i lc + (if c < lc then 1 else 0)"
proof (induction "length data - i" arbitrary: i lc c rule: less_induct)
  case less
  note lc = \<open>lc \<le> 128\<close> and c = \<open>c \<le> 128\<close>
  show ?case
  proof (cases "i < length data")
    case False
    then have "clenLit data i lc = 0" by (simp add: clenLit_stop clen_end)
    then show ?thesis by simp
  next
    case True
    define k where "k = runAt data i"
    have kb: "1 \<le> k" "i + k \<le> length data"
      using runAt_bounds [OF True] by (simp_all add: k_def)
    have IH: "clenLit data (i + k) lc' \<le> mlenLit data (i + k) c' + slenLit data (i + k) lc'
                + (if c' < lc' then 1 else 0)" if "lc' \<le> 128" "c' \<le> 128" for lc' c'
      by (rule less.hyps) (use True kb that in arith)+
    have IHf: "clen data (i + k) \<le> mlen data (i + k) + compress_ctx_splits data (i + k)"
      using IH [of 128 128] by (simp add: clenLit_full mlenLit_full slenLit_full)
    have IHm: "clenLit data (i + k) lc' \<le> mlen data (i + k) + slenLit data (i + k) lc'"
      if "lc' \<le> 128" for lc'
      using IH [of lc' 128] that by (simp add: mlenLit_full)
    consider (one) "k = 1" | (two) "k = 2" | (many) "3 \<le> k" using kb(1) by arith
    then show ?thesis
    proof cases
      case many
      have b: "3 \<le> runAt data i \<or> runAt data i = 2 \<and> lc = 0" using many by (simp add: k_def)
      have k2: "2 \<le> runAt data i" using many by (simp add: k_def)
      have C: "clenLit data i lc = 2 + clen data (i + k)"
      proof (cases "lc < 128")
        case True
        show ?thesis using clenLit_break [OF \<open>i < length data\<close> True b] by (simp add: k_def)
      next
        case False
        with lc have "lc = 128" by simp
        then show ?thesis using clen_repeat [OF True k2] by (simp add: clenLit_full k_def)
      qed
      have S: "slenLit data i lc = compress_ctx_splits data (i + k)"
      proof (cases "lc < 128")
        case True
        show ?thesis using slenLit_break [OF \<open>i < length data\<close> True b] by (simp add: k_def)
      next
        case False
        with lc have "lc = 128" by simp
        then show ?thesis
          using compress_ctx_splits_repeat [OF True k2] by (simp add: slenLit_full k_def)
      qed
      have M: "mlenLit data i c = 2 + mlen data (i + k)"
        using mlenLit_stop [of i data c] mlen_repeat [OF True k2] many by (simp add: k_def)
      show ?thesis unfolding C S M using IHf by simp
    next
      case two
      have k2: "2 \<le> runAt data i" and r2: "runAt data i = 2" using two by (simp_all add: k_def)
      have M: "mlenLit data i c = 2 + mlen data (i + k)"
        using mlenLit_stop [of i data c] mlen_repeat [OF True k2] two by (simp add: k_def)
      consider (start) "lc = 0" | (full) "lc = 128" | (fits) "0 < lc" "lc \<le> 126" | (split) "lc = 127"
        using lc by arith
      then show ?thesis
      proof cases
        case start
        have b: "3 \<le> runAt data i \<or> runAt data i = 2 \<and> lc = 0" using r2 start by simp
        have "clenLit data i lc = 2 + clen data (i + k)"
          using clenLit_break [OF True _ b] start by (simp add: k_def)
        moreover have "slenLit data i lc = compress_ctx_splits data (i + k)"
          using slenLit_break [OF True _ b] start by (simp add: k_def)
        ultimately show ?thesis unfolding M using IHf by simp
      next
        case full
        have "clenLit data i lc = 2 + clen data (i + k)"
          using clen_repeat [OF True k2] full by (simp add: clenLit_full k_def)
        moreover have "slenLit data i lc = compress_ctx_splits data (i + k)"
          using compress_ctx_splits_repeat [OF True k2] full by (simp add: slenLit_full k_def)
        ultimately show ?thesis unfolding M using IHf by simp
      next
        case fits
        have nb: "\<not> (3 \<le> runAt data i \<or> runAt data i = 2 \<and> lc = 0)" using r2 fits by simp
        have l: "lc < 128" and f: "runAt data i \<le> 128 - lc" using fits r2 by simp_all
        have "clenLit data i lc = 2 + clenLit data (i + k) (lc + k)"
          using clenLit_absorb [OF True l nb f] two by (simp add: k_def)
        moreover have "slenLit data i lc = slenLit data (i + k) (lc + k)"
          using slenLit_absorb [OF True l nb f] by (simp add: k_def)
        moreover have "clenLit data (i + k) (lc + k)
                       \<le> mlen data (i + k) + slenLit data (i + k) (lc + k)"
          by (rule IHm) (use fits two in simp)
        ultimately show ?thesis unfolding M by simp
      next
        case split
        have nx: "i + 1 < length data" "runAt data (i + 1) = 1"
          using runAt_after_pair [OF True r2] by simp_all
        have ik: "i + 1 + 1 = i + k" using two by simp
        have "clenLit data i lc = 1 + clen data (i + 1)"
          using clenLit_split [OF True r2] split by (simp add: clenLit_full)
        then have C: "clenLit data i lc = 3 + clenLit data (i + k) 1"
          using clen_literal [OF nx] unfolding ik by simp
        have "slenLit data i lc = 1 + compress_ctx_splits data (i + 1)"
          using slenLit_split [OF True r2] split by (simp add: slenLit_full)
        then have S: "slenLit data i lc = 1 + slenLit data (i + k) 1"
          using compress_ctx_splits_literal [OF nx] unfolding ik by simp
        have "clenLit data (i + k) 1 \<le> mlen data (i + k) + slenLit data (i + k) 1"
          by (rule IHm) simp
        then show ?thesis unfolding C S M by simp
      qed
    next
      case one
      have r1: "runAt data i = 1" using one by (simp add: k_def)
      have nb: "\<not> (3 \<le> runAt data i \<or> runAt data i = 2 \<and> lc = 0)" using r1 by simp
      have C: "clenLit data i lc
               = (if lc < 128 then 1 + clenLit data (i + k) (lc + 1) else 2 + clenLit data (i + k) 1)"
      proof (cases "lc < 128")
        case l: True
        have "runAt data i \<le> 128 - lc" using l r1 by simp
        from clenLit_absorb [OF True l nb this] show ?thesis using l one by (simp add: k_def)
      next
        case False
        with lc have "lc = 128" by simp
        then show ?thesis using clen_literal [OF True r1] one by (simp add: clenLit_full)
      qed
      have S: "slenLit data i lc
               = (if lc < 128 then slenLit data (i + k) (lc + 1) else slenLit data (i + k) 1)"
      proof (cases "lc < 128")
        case l: True
        have "runAt data i \<le> 128 - lc" using l r1 by simp
        from slenLit_absorb [OF True l nb this] show ?thesis using l one by (simp add: k_def)
      next
        case False
        with lc have "lc = 128" by simp
        then show ?thesis
          using compress_ctx_splits_literal [OF True r1] one by (simp add: slenLit_full)
      qed
      have M: "mlenLit data i c
               = (if c < 128 then 1 + mlenLit data (i + k) (c + 1) else 2 + mlenLit data (i + k) 1)"
      proof (cases "c < 128")
        case l: True
        from mlenLit_step [OF True l r1] show ?thesis using l one by simp
      next
        case False
        with c have "c = 128" by simp
        then show ?thesis
          using mlen_literal [OF True r1] mlenLit_step [OF True, of 0] r1 one
          by (simp add: mlenLit_full)
      qed
      show ?thesis
      proof (cases "lc < 128")
        case l: True
        show ?thesis
        proof (cases "c < 128")
          case True
          with l show ?thesis unfolding C S M using IH [of "lc + 1" "c + 1"] by simp
        next
          case False
          with l show ?thesis unfolding C S M using IH [of "lc + 1" 1] by (simp split: if_splits)
        qed
      next
        case nl: False
        show ?thesis
        proof (cases "c < 128")
          case True
          with nl show ?thesis unfolding C S M using IH [of 1 "c + 1"] by simp
        next
          case False
          with nl show ?thesis unfolding C S M using IH [of 1 1] by simp
        qed
      qed
    qed
  qed
qed

theorem ctx_le_boundary_only_plus_splits:
  "length (compress_ctx data) \<le> length (compress data) + splitPairs data"
  using ctx_le_boundary_only_gen [of 0 data 128 128]
  by (simp add: length_compress length_compress_ctx clenLit_full mlenLit_full slenLit_full
        splitPairs_def)


text \<open>
  No pair is split in an input of at most 128 bytes; the one of the 129-byte input
  \<open>0, 1, \<dots>, 126, 200, 200\<close> is.
\<close>

lemma no_split_upto_128:
  assumes n: "length data \<le> 128"
  shows "i \<le> length data \<Longrightarrow>
    compress_ctx_splits data i = 0 \<and> (\<forall>lc. lc \<le> i \<longrightarrow> slenLit data i lc = 0)"
proof (induction "length data - i" arbitrary: i rule: less_induct)
  case less
  show ?case
  proof (cases "i < length data")
    case False
    then show ?thesis by (simp add: compress_ctx_splits_end slenLit_stop)
  next
    case True
    define k where "k = runAt data i"
    have kb: "1 \<le> k" "i + k \<le> length data"
      using runAt_bounds [OF True] by (simp_all add: k_def)
    have IH: "compress_ctx_splits data (i + k) = 0
              \<and> (\<forall>lc. lc \<le> i + k \<longrightarrow> slenLit data (i + k) lc = 0)"
      by (rule less.hyps) (use True kb in arith)+
    have IH1: "compress_ctx_splits data (i + k) = 0" using IH by blast
    have IH2: "slenLit data (i + k) lc = 0" if "lc \<le> i + k" for lc using IH that by blast
    have fresh: "compress_ctx_splits data i = 0"
    proof (cases "k = 1")
      case True
      then have "runAt data i = 1" by (simp add: k_def)
      from compress_ctx_splits_literal [OF \<open>i < length data\<close> this]
      show ?thesis using IH2 [of 1] True by simp
    next
      case False
      with kb(1) have "2 \<le> runAt data i" by (simp add: k_def)
      from compress_ctx_splits_repeat [OF True this] show ?thesis using IH1 by (simp add: k_def)
    qed
    have lit: "slenLit data i lc = 0" if "lc \<le> i" for lc
    proof -
      have l: "lc < 128" and f: "runAt data i \<le> 128 - lc"
        using that True n kb unfolding k_def by arith+
      show ?thesis
      proof (cases "3 \<le> runAt data i \<or> runAt data i = 2 \<and> lc = 0")
        case b: True
        from slenLit_break [OF True l b] show ?thesis using IH1 by (simp add: k_def)
      next
        case nb: False
        from slenLit_absorb [OF True l nb f] show ?thesis
          using IH2 [of "lc + k"] that by (simp add: k_def)
      qed
    qed
    from fresh lit show ?thesis by blast
  qed
qed

lemma splitPairs_upto_128: "length data \<le> 128 \<Longrightarrow> splitPairs data = 0"
  using no_split_upto_128 [of data 0] by (simp add: splitPairs_def)

lemma splitPairs_at_cap: "splitPairs (map of_nat [0..<127] @ [200, 200]) = 1"
  by code_simp

lemma splitPairs_pair_fits: "splitPairs (map of_nat [0..<126] @ [200, 200, 7]) = 0"
  by code_simp

lemma ctx_le_boundary_only_upto_128:
  "length data \<le> 128 \<Longrightarrow> length (compress_ctx data) \<le> length (compress data)"
  using ctx_le_boundary_only_gen [of 0 data 128 128] splitPairs_upto_128 [of data]
  by (simp add: length_compress length_compress_ctx clenLit_full mlenLit_full slenLit_full
        splitPairs_def)

section \<open>The stack-based encoder: the first phase\<close>

text \<open>
  The stack of the first phase is read here as the list of run headers in the order they
  were pushed. \<open>runLen h\<close> is the number of input bytes the run with header \<open>h\<close>
  stands for, \<open>outLen h\<close> the number of bytes it takes in the output; \<open>phi\<close> compares
  three times the input consumed with twice the room needed (output bytes plus one
  stack cell per run). \<open>roomy\<close> says that every stack cell is still unwritten when
  the second phase comes to read it, given a buffer of one and a half times the input.
\<close>

definition runLen :: "byte \<Rightarrow> nat" where
  "runLen h = (if unat h < 128 then unat h + 1 else 257 - unat h)"

definition outLen :: "byte \<Rightarrow> nat" where
  "outLen h = (if unat h < 128 then unat h + 2 else 2)"

definition consumed :: "byte list \<Rightarrow> nat" where
  "consumed S = sum_list (map runLen S)"

definition written :: "byte list \<Rightarrow> nat" where
  "written S = sum_list (map outLen S)"

definition phi :: "byte list \<Rightarrow> int" where
  "phi S = 3 * int (consumed S) - 2 * int (written S + length S)"

definition roomy :: "byte list \<Rightarrow> bool" where
  "roomy S \<longleftrightarrow> (\<forall>i. i < length S \<longrightarrow> 1 \<le> phi (take i S) + 3 * int (runLen (S ! i)))"

definition ainv :: "byte list \<Rightarrow> nat \<Rightarrow> bool" where
  "ainv S c \<longleftrightarrow>
     128 \<notin> set S
     \<and> (0 < c \<longrightarrow> S \<noteq> [] \<and> unat (last S) = c - 1 \<and> c \<le> 128)
     \<and> (if 0 < c then min 0 (int c - 4) else 0) \<le> phi S
     \<and> roomy S"

definition fin :: "byte list \<Rightarrow> bool" where
  "fin S \<longleftrightarrow> 128 \<notin> set S \<and> S \<noteq> [] \<and> - 3 \<le> phi S \<and> roomy S"

lemma runLen_pos: "1 \<le> runLen h"
  using unsigned_less [of h, where 'a = nat] by (auto simp: runLen_def)

lemma length_le_consumed: "length S \<le> consumed S"
proof (induction S)
  case Nil
  show ?case by (simp add: consumed_def)
next
  case (Cons h S)
  with runLen_pos [of h] show ?case by (simp add: consumed_def)
qed

lemma consumed_append: "consumed (S @ [h]) = consumed S + runLen h"
  by (simp add: consumed_def)

lemma written_append: "written (S @ [h]) = written S + outLen h"
  by (simp add: written_def)

lemma phi_append: "phi (S @ [h]) = phi S + 3 * int (runLen h) - 2 * int (outLen h) - 2"
  by (simp add: phi_def consumed_append written_append)

lemma phi_Nil: "phi [] = 0"
  by (simp add: phi_def consumed_def written_def)

lemma runLen_literal: "unat h = k - 1 \<Longrightarrow> 1 \<le> k \<Longrightarrow> k \<le> 128 \<Longrightarrow> runLen h = k \<and> outLen h = k + 1"
  by (auto simp: runLen_def outLen_def)

lemma runLen_replicate: "unat h = 257 - k \<Longrightarrow> 2 \<le> k \<Longrightarrow> k \<le> 128 \<Longrightarrow> runLen h = k \<and> outLen h = 2"
  by (auto simp: runLen_def outLen_def)

lemma roomy_append:
  assumes "roomy S" "1 \<le> phi S + 3 * int (runLen h)"
  shows "roomy (S @ [h])"
  unfolding roomy_def
proof (intro allI impI)
  fix i assume i: "i < length (S @ [h])"
  show "1 \<le> phi (take i (S @ [h])) + 3 * int (runLen ((S @ [h]) ! i))"
  proof (cases "i < length S")
    case True
    with assms(1) show ?thesis by (simp add: roomy_def nth_append)
  next
    case False
    with i have "i = length S" by simp
    with assms(2) show ?thesis by simp
  qed
qed

lemma roomy_replace_last:
  assumes "roomy S" "S \<noteq> []" "runLen (last S) \<le> runLen h"
  shows "roomy (butlast S @ [h])"
  unfolding roomy_def
proof (intro allI impI)
  fix i assume i: "i < length (butlast S @ [h])"
  then have iS: "i < length S" using assms(2) by simp
  have r: "1 \<le> phi (take i S) + 3 * int (runLen (S ! i))" using assms(1) iS by (simp add: roomy_def)
  show "1 \<le> phi (take i (butlast S @ [h])) + 3 * int (runLen ((butlast S @ [h]) ! i))"
  proof (cases "i < length (butlast S)")
    case True
    then have "take i (butlast S @ [h]) = take i S" "(butlast S @ [h]) ! i = S ! i"
      by (simp_all add: nth_append nth_butlast take_butlast)
    with r show ?thesis by simp
  next
    case False
    with i have e: "i = length (butlast S)" by simp
    have "take i (butlast S @ [h]) = butlast S" unfolding e by simp
    moreover have "take i S = butlast S" unfolding e by (simp add: butlast_conv_take)
    moreover have "(butlast S @ [h]) ! i = h" unfolding e by (rule nth_append_length)
    moreover have "S ! i = last S" unfolding e using assms(2) by (simp add: last_conv_nth)
    ultimately show ?thesis using r assms(3) by simp
  qed
qed

lemma phi_replace_last:
  assumes "S \<noteq> []"
  shows "phi (butlast S @ [h]) = phi S
     + 3 * (int (runLen h) - int (runLen (last S))) - 2 * (int (outLen h) - int (outLen (last S)))"
proof -
  have "S = butlast S @ [last S]" using assms by simp
  then have "phi S = phi (butlast S) + 3 * int (runLen (last S)) - 2 * int (outLen (last S)) - 2"
    using phi_append [of "butlast S" "last S"] by simp
  then show ?thesis using phi_append [of "butlast S" h] by simp
qed

lemma consumed_replace_last:
  assumes "S \<noteq> []" "runLen (last S) \<le> runLen h"
  shows "consumed (butlast S @ [h]) = consumed S + (runLen h - runLen (last S))"
proof -
  have "S = butlast S @ [last S]" using assms by simp
  then have "consumed S = consumed (butlast S) + runLen (last S)"
    using consumed_append [of "butlast S" "last S"] by simp
  then show ?thesis using consumed_append [of "butlast S" h] assms(2) by simp
qed

lemma ainv_push_replicate:
  assumes "ainv S c" "unat h = 257 - k" "2 \<le> k" "k \<le> 128" "0 < c \<longrightarrow> 3 \<le> k \<or> 128 < c + 2"
  shows "ainv (S @ [h]) 0 \<and> consumed (S @ [h]) = consumed S + k"
proof -
  have rl: "runLen h = k" "outLen h = 2" using runLen_replicate [OF assms(2-4)] by simp_all
  have lo: "- 3 \<le> phi S" using assms(1) by (auto simp: ainv_def split: if_splits)
  have "h \<noteq> 128" using assms(2-4) by (rule not_noop_repeat)
  moreover have "roomy (S @ [h])"
    using assms(1,3) lo by (intro roomy_append) (simp_all add: ainv_def rl)
  moreover have "0 \<le> phi (S @ [h])"
    using assms(1,3,5) unfolding phi_append rl by (auto simp: ainv_def split: if_splits)
  ultimately show ?thesis using assms(1) by (simp add: ainv_def consumed_append rl)
qed

lemma ainv_push_literal:
  assumes "ainv S c" "unat h = k - 1" "1 \<le> k" "k \<le> 128" "0 < c \<longrightarrow> 128 < c + k"
  shows "ainv (S @ [h]) k \<and> consumed (S @ [h]) = consumed S + k"
proof -
  have rl: "runLen h = k" "outLen h = k + 1" using runLen_literal [OF assms(2-4)] by simp_all
  have "h \<noteq> 128" using assms(2,4) by (rule not_noop_literal)
  moreover have "1 \<le> phi S + 3 * int (runLen h)"
    using assms(1,3,5) unfolding rl by (auto simp: ainv_def split: if_splits)
  then have "roomy (S @ [h])" using assms(1) by (intro roomy_append) (simp_all add: ainv_def)
  moreover have "min 0 (int k - 4) \<le> phi (S @ [h])"
    using assms(1,3,5) unfolding phi_append rl by (auto simp: ainv_def split: if_splits)
  ultimately show ?thesis using assms(1-4) by (simp add: ainv_def consumed_append rl)
qed

lemma ainv_extend:
  assumes "ainv S c" "0 < c" "1 \<le> k" "c + k \<le> 128" "unat h = c + k - 1"
  shows "ainv (butlast S @ [h]) (c + k) \<and> consumed (butlast S @ [h]) = consumed S + k"
proof -
  from assms(1,2) have S: "S \<noteq> []" "unat (last S) = c - 1" "c \<le> 128" by (simp_all add: ainv_def)
  have rl: "runLen h = c + k" "outLen h = c + k + 1"
    using runLen_literal [of h "c + k"] assms(3-5) by simp_all
  have rS: "runLen (last S) = c" "outLen (last S) = c + 1"
    using runLen_literal [of "last S" c] S assms(2) by simp_all
  have "h \<noteq> 128" using assms(5,4) by (rule not_noop_literal)
  moreover have "128 \<notin> set (butlast S)" using assms(1) by (auto simp: ainv_def dest: in_set_butlastD)
  moreover have "roomy (butlast S @ [h])"
    using assms(1) S(1) by (intro roomy_replace_last) (simp_all add: ainv_def rl rS)
  moreover have "phi (butlast S @ [h]) = phi S + int k"
    unfolding phi_replace_last [OF S(1)] rl rS by simp
  then have "min 0 (int (c + k) - 4) \<le> phi (butlast S @ [h])"
    using assms(1,2,3) by (auto simp: ainv_def split: if_splits)
  moreover have "consumed (butlast S @ [h]) = consumed S + k"
    using consumed_replace_last [OF S(1), of h] by (simp add: rl rS)
  ultimately show ?thesis using assms(2-5) by (simp add: ainv_def)
qed

lemma ainv_fin: "ainv S c \<Longrightarrow> S \<noteq> [] \<Longrightarrow> fin S"
  by (auto simp: ainv_def fin_def split: if_splits)

lemma ainv_push_last_byte:
  assumes "ainv S c" "0 < c \<longrightarrow> 128 < c + 1" "unat h = 0"
  shows "fin (S @ [h]) \<and> consumed (S @ [h]) = consumed S + 1"
proof -
  have rl: "runLen h = 1" "outLen h = 2" using assms(3) by (simp_all add: runLen_def outLen_def)
  have "h \<noteq> 128" using assms(3) by auto
  moreover have "0 \<le> phi S" using assms(1,2) by (auto simp: ainv_def split: if_splits)
  then have "roomy (S @ [h])" "- 3 \<le> phi (S @ [h])"
    using assms(1) by (simp_all add: roomy_append ainv_def phi_append rl)
  ultimately show ?thesis using assms(1) by (simp add: fin_def ainv_def consumed_append rl)
qed


text \<open>
  \<open>stackOf st\<close>: the cells above \<open>iStack\<close>, from the end of the buffer downwards.
  \<open>runsMatch S data ofs\<close>: every replicate run of \<open>S\<close> lies on equal bytes of the
  input, the runs laid out from offset \<open>ofs\<close>. \<open>cinv\<close> is the invariant of the first
  phase when \<open>p\<close> bytes of the input are in closed runs, \<open>cfinal\<close> what holds when it
  returns.
\<close>

definition stackOf :: "collect \<Rightarrow> byte list" where
  "stackOf st = rev (drop (nat (iStack st + 1)) (buffer st))"

definition binv :: "nat \<Rightarrow> collect \<Rightarrow> bool" where
  "binv L st \<longleftrightarrow> length (buffer st) = L \<and> - 1 \<le> iStack st \<and> iStack st < int L"

fun runsMatch :: "byte list \<Rightarrow> byte list \<Rightarrow> nat \<Rightarrow> bool" where
  "runsMatch [] data ofs = True"
| "runsMatch (h # S) data ofs =
     ((if 128 < unat h then (\<forall>j. j < 257 - unat h \<longrightarrow> data ! (ofs + j) = data ! ofs) else True)
      \<and> runsMatch S data (ofs + runLen h))"

definition cinv :: "nat \<Rightarrow> byte list \<Rightarrow> collect \<Rightarrow> nat \<Rightarrow> bool" where
  "cinv L data st p \<longleftrightarrow>
     binv L st \<and> ainv (stackOf st) (countLastLiteral st)
     \<and> consumed (stackOf st) = p \<and> runsMatch (stackOf st) data 0"

definition cfinal :: "nat \<Rightarrow> byte list \<Rightarrow> collect \<Rightarrow> bool" where
  "cfinal L data st \<longleftrightarrow>
     binv L st \<and> fin (stackOf st)
     \<and> consumed (stackOf st) = length data \<and> runsMatch (stackOf st) data 0"

lemma length_stackOf: "binv L st \<Longrightarrow> int (length (stackOf st)) = int L - 1 - iStack st"
  by (auto simp: stackOf_def binv_def)

lemma drop_update_here: "q < length xs \<Longrightarrow> drop q (xs[q := x]) = x # drop (Suc q) xs"
proof -
  assume q: "q < length xs"
  have "drop q (xs[q := x]) = (xs[q := x]) ! q # drop (Suc q) (xs[q := x])"
    by (rule Cons_nth_drop_Suc [symmetric]) (use q in simp)
  also have "(xs[q := x]) ! q = x" using q by simp
  also have "drop (Suc q) (xs[q := x]) = drop (Suc q) xs" by (rule drop_update_cancel) simp
  finally show ?thesis .
qed

lemma push_stack:
  assumes "binv L st" "0 \<le> iStack st"
  shows "stackOf (push v c st) = stackOf st @ [of_int v]"
    and "countLastLiteral (push v c st) = c" and "binv L (push v c st)"
proof -
  define q where "q = nat (iStack st)"
  have q: "q < length (buffer st)" "nat (iStack st + 1) = Suc q" "nat (iStack st - 1 + 1) = q"
    using assms by (auto simp: q_def binv_def)
  have b: "buffer (push v c st) = (buffer st)[q := of_int v]"
    using assms(2) by (simp add: push_def ta_store_def q_def)
  have i: "nat (iStack (push v c st) + 1) = q" by (simp add: push_def q_def)
  show "stackOf (push v c st) = stackOf st @ [of_int v]"
    unfolding stackOf_def i b q(2) using q(1) by (simp add: drop_update_here)
  show "countLastLiteral (push v c st) = c" by (simp add: push_def)
  show "binv L (push v c st)" using assms by (simp add: binv_def b) (simp add: push_def)
qed

lemma extend_stack:
  assumes "binv L st" "stackOf st \<noteq> []"
  shows "stackOf (extendLast k st)
         = butlast (stackOf st) @ [of_int (int (countLastLiteral st + k) - 1)]"
    and "countLastLiteral (extendLast k st) = countLastLiteral st + k"
    and "binv L (extendLast k st)"
proof -
  define q where "q = nat (iStack st + 1)"
  have q0: "0 \<le> iStack st + 1" using assms(1) by (simp add: binv_def)
  have q: "q < length (buffer st)" using assms(2) by (simp add: stackOf_def q_def)
  have b: "buffer (extendLast k st)
           = (buffer st)[q := of_int (int (countLastLiteral st + k) - 1)]"
    using q0 by (simp add: extendLast_def ta_store_def q_def)
  have i: "iStack (extendLast k st) = iStack st" by (simp add: extendLast_def)
  have old: "stackOf st = rev (drop (Suc q) (buffer st)) @ [buffer st ! q]"
    unfolding stackOf_def q_def [symmetric] using q by (simp flip: Cons_nth_drop_Suc)
  show "stackOf (extendLast k st)
        = butlast (stackOf st) @ [of_int (int (countLastLiteral st + k) - 1)]"
    unfolding old unfolding stackOf_def i b q_def [symmetric] using q
    by (simp add: drop_update_here)
  show "countLastLiteral (extendLast k st) = countLastLiteral st + k"
    by (simp add: extendLast_def)
  show "binv L (extendLast k st)" using assms(1) by (simp add: binv_def b i)
qed

lemma runsMatch_append:
  "runsMatch (S @ [h]) data ofs \<longleftrightarrow>
     runsMatch S data ofs
     \<and> (128 < unat h \<longrightarrow>
          (\<forall>j. j < 257 - unat h \<longrightarrow> data ! (ofs + consumed S + j) = data ! (ofs + consumed S)))"
proof (induction S arbitrary: ofs)
  case Nil
  show ?case by (simp add: consumed_def)
next
  case (Cons a S)
  have c: "consumed (a # S) = runLen a + consumed S" by (simp add: consumed_def)
  show ?case
    unfolding append_Cons runsMatch.simps Cons.IH c
    by (simp only: add.assoc conj_assoc)
qed

lemma runsMatch_replace_last:
  assumes "runsMatch S data ofs" "S \<noteq> []" "unat h < 128"
  shows "runsMatch (butlast S @ [h]) data ofs"
proof -
  have "S = butlast S @ [last S]" using assms(2) by simp
  then have "runsMatch (butlast S @ [last S]) data ofs" using assms(1) by simp
  then have "runsMatch (butlast S) data ofs" unfolding runsMatch_append by blast
  with assms(3) show ?thesis unfolding runsMatch_append by simp
qed

lemma cinv_push_range:
  assumes "cinv L data st p" "p < length data" "length data < L"
  shows "0 \<le> iStack st"
proof -
  have "length (stackOf st) \<le> p" using assms(1) length_le_consumed [of "stackOf st"]
    by (simp add: cinv_def)
  moreover have "int (length (stackOf st)) = int L - 1 - iStack st"
    using assms(1) by (simp add: cinv_def length_stackOf)
  ultimately show ?thesis using assms(2,3) by arith
qed

lemma push_replicate_cinv:
  assumes "cinv L data st p" "129 \<le> n" "n \<le> 255" "p + (257 - n) \<le> length data"
    "length data < L"
    "0 < countLastLiteral st \<longrightarrow> 3 \<le> 257 - n \<or> 128 < countLastLiteral st + 2"
    "\<forall>j. j < 257 - n \<longrightarrow> data ! (p + j) = data ! p"
  shows "cinv L data (push (int n) 0 st) (p + (257 - n))"
proof -
  define h :: byte where "h = of_int (int n)"
  define k where "k = 257 - n"
  have k: "2 \<le> k" "k \<le> 128" using assms(2,3) by (simp_all add: k_def)
  have "unat (of_nat n :: byte) = n" by (rule unat_of_nat_byte) (use assms(3) in simp)
  then have uh: "unat h = 257 - k" using assms(2,3) by (simp add: h_def k_def)
  have rng: "0 \<le> iStack st" using assms(1) _ assms(5) by (rule cinv_push_range) (use assms(2-4) in arith)
  have b: "binv L st" using assms(1) by (simp add: cinv_def)
  note ps = push_stack [OF b rng, of "int n" 0, folded h_def]
  have a: "ainv (stackOf st @ [h]) 0 \<and> consumed (stackOf st @ [h]) = consumed (stackOf st) + k"
    using assms(1,6) by (intro ainv_push_replicate [OF _ uh k]) (simp_all add: cinv_def k_def)
  have m: "runsMatch (stackOf st @ [h]) data 0"
    unfolding runsMatch_append using assms(1,7) uh k by (simp add: cinv_def k_def)
  show ?thesis
    unfolding cinv_def ps using a m ps(3) assms(1) by (simp add: cinv_def k_def)
qed

lemma push_literal_cinv:
  assumes "cinv L data st p" "1 \<le> k" "k \<le> 128" "p + k \<le> length data" "length data < L"
    "0 < countLastLiteral st \<longrightarrow> 128 < countLastLiteral st + k"
  shows "cinv L data (push (int k - 1) k st) (p + k)"
proof -
  define h :: byte where "h = of_int (int k - 1)"
  have uh: "unat h = k - 1" unfolding h_def using assms(2,3) by (rule unat_literal_header)
  have rng: "0 \<le> iStack st" using assms(1) _ assms(5) by (rule cinv_push_range) (use assms(2,4) in arith)
  have b: "binv L st" using assms(1) by (simp add: cinv_def)
  note ps = push_stack [OF b rng, of "int k - 1" k, folded h_def]
  have a: "ainv (stackOf st @ [h]) k \<and> consumed (stackOf st @ [h]) = consumed (stackOf st) + k"
    using assms(1,6) by (intro ainv_push_literal [OF _ uh assms(2,3)]) (simp_all add: cinv_def)
  have "\<not> 128 < unat h" using uh assms(2,3) by arith
  then have m: "runsMatch (stackOf st @ [h]) data 0"
    unfolding runsMatch_append using assms(1) by (simp add: cinv_def)
  show ?thesis
    unfolding cinv_def ps using a m ps(3) assms(1) by (simp add: cinv_def)
qed

lemma extend_cinv:
  assumes "cinv L data st p" "0 < countLastLiteral st" "1 \<le> k" "countLastLiteral st + k \<le> 128"
  shows "cinv L data (extendLast k st) (p + k)"
proof -
  define c where "c = countLastLiteral st"
  define h :: byte where "h = of_int (int (c + k) - 1)"
  have uh: "unat h = c + k - 1"
    unfolding h_def using assms(3,4) by (intro unat_literal_header) (simp_all add: c_def)
  have b: "binv L st" and a0: "ainv (stackOf st) c" using assms(1) by (simp_all add: cinv_def c_def)
  from a0 assms(2) have ne: "stackOf st \<noteq> []" by (simp add: ainv_def c_def)
  note es = extend_stack [OF b ne, of k, folded c_def, folded h_def]
  have a: "ainv (butlast (stackOf st) @ [h]) (c + k)
           \<and> consumed (butlast (stackOf st) @ [h]) = consumed (stackOf st) + k"
    using a0 assms(2-4) uh by (intro ainv_extend) (simp_all add: c_def)
  have "unat h < 128" using uh assms(3,4) by (simp add: c_def)
  then have m: "runsMatch (butlast (stackOf st) @ [h]) data 0"
    using assms(1) ne by (intro runsMatch_replace_last) (simp_all add: cinv_def)
  show ?thesis
    unfolding cinv_def es using a m es(3) assms(1) by (simp add: cinv_def)
qed


lemma closeReplicate_cinv:
  assumes "cinv L data st p" "130 \<le> n" "n \<le> 255" "p + (257 - n) \<le> length data"
    "length data < L" "\<forall>j. j < 257 - n \<longrightarrow> data ! (p + j) = data ! p"
  shows "cinv L data (closeReplicate n st) (p + (257 - n))"
proof (cases "n = 255 \<and> countLastLiteral st > 0 \<and> countLastLiteral st + 2 \<le> 128")
  case True
  then have e: "closeReplicate n st = extendLast 2 st" by (simp add: closeReplicate_def)
  from True have "cinv L data (extendLast 2 st) (p + 2)"
    using assms(1) by (intro extend_cinv) simp_all
  with True show ?thesis unfolding e by simp
next
  case False
  then have e: "closeReplicate n st = push (int n) 0 st" by (auto simp: closeReplicate_def)
  have "cinv L data (push (int n) 0 st) (p + (257 - n))"
    using assms(1) _ assms(3-5) _ assms(6)
    by (rule push_replicate_cinv) (use assms(2,3) False in arith)+
  then show ?thesis unfolding e .
qed

lemma closeLiteral_cinv:
  assumes "cinv L data st p" "1 \<le> n" "n \<le> 127" "p + (n + 1) \<le> length data" "length data < L"
  shows "cinv L data (closeLiteral n st) (p + (n + 1))"
proof (cases "countLastLiteral st > 0 \<and> countLastLiteral st + n + 1 \<le> 128")
  case True
  then have e: "closeLiteral n st = extendLast (n + 1) st" by (simp add: closeLiteral_def)
  from True have "cinv L data (extendLast (n + 1) st) (p + (n + 1))"
    using assms(1) by (intro extend_cinv) simp_all
  then show ?thesis unfolding e .
next
  case False
  then have e: "closeLiteral n st = push (int (n + 1) - 1) (n + 1) st"
    by (auto simp: closeLiteral_def)
  have "cinv L data (push (int (n + 1) - 1) (n + 1) st) (p + (n + 1))"
    using assms(1) _ _ assms(4,5)
    by (rule push_literal_cinv) (use assms(2,3) False in arith)+
  then show ?thesis unfolding e .
qed

lemma closeLiteralBefore_cinv:
  assumes "cinv L data st p" "1 \<le> n" "n \<le> 127" "p + n \<le> length data" "length data < L"
  shows "cinv L data (closeLiteralBefore n st) (p + n)"
proof (cases "countLastLiteral st > 0 \<and> countLastLiteral st + n \<le> 128")
  case True
  then have e: "closeLiteralBefore n st = extendLast n st" by (simp add: closeLiteralBefore_def)
  from True have "cinv L data (extendLast n st) (p + n)"
    using assms(1,2) by (intro extend_cinv) simp_all
  then show ?thesis unfolding e .
next
  case False
  then have e: "closeLiteralBefore n st = push (int n - 1) n st"
    by (auto simp: closeLiteralBefore_def)
  have "cinv L data (push (int n - 1) n st) (p + n)"
    using assms(1) _ _ assms(4,5)
    by (rule push_literal_cinv) (use assms(2,3) False in arith)+
  then show ?thesis unfolding e .
qed

lemma cinv_cfinal:
  assumes "cinv L data st (length data)" "0 < length data"
  shows "cfinal L data st"
proof -
  have "stackOf st \<noteq> []"
  proof
    assume "stackOf st = []"
    then have "consumed (stackOf st) = 0" by (simp add: consumed_def)
    with assms show False by (simp add: cinv_def)
  qed
  with assms(1) show ?thesis by (auto simp: cinv_def cfinal_def intro: ainv_fin)
qed

lemma closeLastByte_cfinal:
  assumes "cinv L data st p" "p + 1 = length data" "length data < L"
  shows "cfinal L data (closeLastByte st)"
proof (cases "countLastLiteral st > 0 \<and> countLastLiteral st + 1 \<le> 128")
  case True
  then have e: "closeLastByte st = extendLast 1 st" by (simp add: closeLastByte_def)
  from True have "cinv L data (extendLast 1 st) (p + 1)"
    using assms(1) by (intro extend_cinv) simp_all
  then have "cfinal L data (extendLast 1 st)"
    unfolding assms(2) by (rule cinv_cfinal) (use assms(2) in arith)
  then show ?thesis unfolding e .
next
  case False
  define h :: byte where "h = of_int 0"
  have uh: "unat h = 0" by (simp add: h_def)
  have rng: "0 \<le> iStack st" using assms(1) _ assms(3) by (rule cinv_push_range) (use assms(2) in arith)
  have b: "binv L st" using assms(1) by (simp add: cinv_def)
  note ps = push_stack [OF b rng, of 0 "countLastLiteral st", folded h_def]
  have a: "fin (stackOf st @ [h]) \<and> consumed (stackOf st @ [h]) = consumed (stackOf st) + 1"
    using assms(1) _ uh by (rule ainv_push_last_byte [OF cinv_def [THEN iffD1, THEN conjunct2, THEN conjunct1]])
       (use False in arith)
  have m: "runsMatch (stackOf st @ [h]) data 0"
    unfolding runsMatch_append using assms(1) uh by (simp add: cinv_def)
  have "cfinal L data (push 0 (countLastLiteral st) st)"
    unfolding cfinal_def ps using a m ps(3) assms(1,2) by (simp add: cinv_def)
  moreover from False have "closeLastByte st = push 0 (countLastLiteral st) st"
    by (auto simp: closeLastByte_def)
  ultimately show ?thesis by simp
qed

text \<open>
  What each control point knows about the bytes read but not yet in a closed run.
\<close>

fun pointInv :: "byte list \<Rightarrow> point \<Rightarrow> nat \<Rightarrow> bool" where
  "pointInv data (LoopTop anchor crnt iRead) p \<longleftrightarrow>
     iRead = p + 2 \<and> iRead \<le> length data \<and> anchor = data ! p \<and> crnt = data ! (p + 1)"
| "pointInv data (InReplicate anchor n iRead) p \<longleftrightarrow>
     130 \<le> n \<and> n \<le> 255 \<and> iRead = p + (257 - n) \<and> iRead \<le> length data
     \<and> (\<forall>j. j < 257 - n \<longrightarrow> data ! (p + j) = anchor)"
| "pointInv data (InLiteral prev n iRead) p \<longleftrightarrow>
     1 \<le> n \<and> n \<le> 126 \<and> iRead = p + n + 1 \<and> iRead \<le> length data \<and> prev = data ! (p + n)"
| "pointInv data (AfterRun iRead) p \<longleftrightarrow> iRead = p \<and> p \<le> length data"
| "pointInv data (AfterAnchor anchor iRead) p \<longleftrightarrow>
     iRead = p + 1 \<and> iRead \<le> length data \<and> anchor = data ! p"


lemma collectRuns_cfinal:
  "pointInv data pt p \<Longrightarrow> cinv L data st p \<Longrightarrow> length data < L \<Longrightarrow> 0 < length data \<Longrightarrow>
   cfinal L data (collectRuns data pt st)"
proof (induction "2 * (length data - point_iRead pt) + point_rank pt" arbitrary: pt st p
       rule: less_induct)
  case less
  note len = less.prems(3,4)
  show ?case
  proof (cases pt)
    case (LoopTop anchor crnt iRead)
    note pv = less.prems(1) [unfolded LoopTop pointInv.simps]
    have pi: "iRead = p + 2" "iRead \<le> length data" "anchor = data ! p"
      "crnt = data ! (p + 1)" using pv by blast+
    show ?thesis
    proof (cases "anchor = crnt")
      case True
      have "\<forall>j. j < 257 - (255::nat) \<longrightarrow> data ! (p + j) = anchor"
      proof (intro allI impI)
        fix j :: nat assume "j < 257 - 255"
        then have "j = 0 \<or> j = 1" by arith
        with pi True show "data ! (p + j) = anchor" by auto
      qed
      with pi have "pointInv data (InReplicate anchor 255 iRead) p" by simp
      then have "cfinal L data (collectRuns data (InReplicate anchor 255 iRead) st)"
        using less.prems(2) len by (rule less.hyps [rotated]) (simp add: LoopTop)
      with True show ?thesis unfolding LoopTop by (subst collectRuns.simps) simp
    next
      case False
      from pi have "pointInv data (InLiteral crnt 1 iRead) p" by simp
      then have "cfinal L data (collectRuns data (InLiteral crnt 1 iRead) st)"
        using less.prems(2) len by (rule less.hyps [rotated]) (simp add: LoopTop)
      with False show ?thesis unfolding LoopTop by (subst collectRuns.simps) simp
    qed
  next
    case (InReplicate anchor n iRead)
    note pv = less.prems(1) [unfolded InReplicate pointInv.simps]
    have pi: "130 \<le> n" "n \<le> 255" "iRead = p + (257 - n)" "iRead \<le> length data"
      and eqs: "\<forall>j. j < 257 - n \<longrightarrow> data ! (p + j) = anchor"
      using pv by blast+
    from eqs have "0 < 257 - n \<longrightarrow> data ! (p + 0) = anchor" by blast
    with pi(2) have a0: "data ! p = anchor" by simp
    have m: "\<forall>j. j < 257 - n \<longrightarrow> data ! (p + j) = data ! p" unfolding a0 by (rule eqs)
    have cl: "cinv L data (closeReplicate n st) iRead"
      unfolding pi(3) using less.prems(2) pi(1,2) _ len(1) m
      by (rule closeReplicate_cinv) (use pi(3,4) in simp)
    show ?thesis
    proof (cases "iRead \<ge> length data")
      case True
      with pi have "iRead = length data" by simp
      with cl len have "cfinal L data (closeReplicate n st)" by (simp add: cinv_cfinal)
      with True show ?thesis unfolding InReplicate by (subst collectRuns.simps) simp
    next
      case False
      note inside = False
      show ?thesis
      proof (cases "data ! iRead \<noteq> anchor")
        case True
        have "pointInv data (AfterAnchor (data ! iRead) (iRead + 1)) iRead"
          using inside by simp
        then have "cfinal L data
            (collectRuns data (AfterAnchor (data ! iRead) (iRead + 1)) (closeReplicate n st))"
          using cl len by (rule less.hyps [rotated]) (use inside in \<open>simp add: InReplicate\<close>)
        with True inside show ?thesis
          unfolding InReplicate by (subst collectRuns.simps) (simp add: Let_def)
      next
        case False
        then have same: "data ! iRead = anchor" by simp
        have m1: "\<forall>j. j < 257 - (n - 1) \<longrightarrow> data ! (p + j) = anchor"
        proof (intro allI impI)
          fix j assume j: "j < 257 - (n - 1)"
          show "data ! (p + j) = anchor"
          proof (cases "j < 257 - n")
            case True
            with eqs show ?thesis by blast
          next
            case False
            with j pi have "p + j = iRead" by arith
            with same show ?thesis by simp
          qed
        qed
        show ?thesis
        proof (cases "n - 1 > 129")
          case True
          have "pointInv data (InReplicate anchor (n - 1) (iRead + 1)) p"
            unfolding pointInv.simps using pi True inside m1
            by (intro conjI; (arith | blast))
          then have "cfinal L data (collectRuns data (InReplicate anchor (n - 1) (iRead + 1)) st)"
            using less.prems(2) len
            by (rule less.hyps [rotated]) (use inside in \<open>simp add: InReplicate\<close>)
          with True same inside show ?thesis
            unfolding InReplicate by (subst collectRuns.simps) (simp add: Let_def)
        next
          case False
          with pi have n1: "n - 1 = 129" by arith
          have m2: "\<forall>j. j < 257 - (129::nat) \<longrightarrow> data ! (p + j) = data ! p"
            using m1 a0 unfolding n1 by simp
          have e: "p + (257 - 129) = iRead + 1" using pi n1 by arith
          have "cinv L data (push (int 129) 0 st) (p + (257 - 129))"
            using less.prems(2) _ _ _ len(1) _ m2
            by (rule push_replicate_cinv) (use pi n1 inside in simp_all)
          then have c2: "cinv L data (push (int 129) 0 st) (iRead + 1)" unfolding e .
          have "pointInv data (AfterRun (iRead + 1)) (iRead + 1)" using inside by simp
          then have "cfinal L data (collectRuns data (AfterRun (iRead + 1)) (push (int 129) 0 st))"
            using c2 len by (rule less.hyps [rotated]) (use inside in \<open>simp add: InReplicate\<close>)
          with False same inside n1 show ?thesis
            unfolding InReplicate by (subst collectRuns.simps) (simp add: Let_def)
        qed
      qed
    qed
  next
    case (InLiteral prev n iRead)
    note pv = less.prems(1) [unfolded InLiteral pointInv.simps]
    have pi: "1 \<le> n" "n \<le> 126" "iRead = p + n + 1"
      "iRead \<le> length data" "prev = data ! (p + n)" using pv by blast+
    show ?thesis
    proof (cases "iRead \<ge> length data")
      case True
      with pi have e: "p + (n + 1) = length data" by simp
      have "cinv L data (closeLiteral n st) (p + (n + 1))"
        using less.prems(2) pi(1) _ _ len(1) by (rule closeLiteral_cinv) (use pi e in simp_all)
      with e len have "cfinal L data (closeLiteral n st)" by (simp add: cinv_cfinal)
      with True show ?thesis unfolding InLiteral by (subst collectRuns.simps) simp
    next
      case False
      note inside = False
      show ?thesis
      proof (cases "data ! iRead = prev")
        case True
        have cl: "cinv L data (closeLiteralBefore n st) (p + n)"
          using less.prems(2) pi(1) _ _ len(1)
          by (rule closeLiteralBefore_cinv) (use pi in simp_all)
        have "pointInv data (LoopTop prev (data ! iRead) (iRead + 1)) (p + n)"
          using pi inside by (simp add: add.assoc)
        then have "cfinal L data
            (collectRuns data (LoopTop prev (data ! iRead) (iRead + 1)) (closeLiteralBefore n st))"
          using cl len by (rule less.hyps [rotated]) (use inside in \<open>simp add: InLiteral\<close>)
        with True inside show ?thesis
          unfolding InLiteral by (subst collectRuns.simps) (simp add: Let_def)
      next
        case False
        note differ = False
        show ?thesis
        proof (cases "n + 1 < 127")
          case True
          have "pointInv data (InLiteral (data ! iRead) (n + 1) (iRead + 1)) p"
            using pi True inside by (simp add: add.assoc)
          then have "cfinal L data
              (collectRuns data (InLiteral (data ! iRead) (n + 1) (iRead + 1)) st)"
            using less.prems(2) len
            by (rule less.hyps [rotated]) (use inside in \<open>simp add: InLiteral\<close>)
          with True differ inside show ?thesis
            unfolding InLiteral by (subst collectRuns.simps) (simp add: Let_def)
        next
          case False
          have e: "p + (n + 1 + 1) = iRead + 1" using pi by simp
          have "cinv L data (closeLiteral (n + 1) st) (p + (n + 1 + 1))"
            using less.prems(2) _ _ _ len(1)
            by (rule closeLiteral_cinv) (use pi inside in simp_all)
          then have c2: "cinv L data (closeLiteral (n + 1) st) (iRead + 1)" unfolding e .
          have "pointInv data (AfterRun (iRead + 1)) (iRead + 1)" using inside by simp
          then have "cfinal L data
              (collectRuns data (AfterRun (iRead + 1)) (closeLiteral (n + 1) st))"
            using c2 len by (rule less.hyps [rotated]) (use inside in \<open>simp add: InLiteral\<close>)
          with False differ inside show ?thesis
            unfolding InLiteral by (subst collectRuns.simps) (simp add: Let_def)
        qed
      qed
    qed
  next
    case (AfterRun iRead)
    note pv = less.prems(1) [unfolded AfterRun pointInv.simps]
    have pi: "iRead = p" "p \<le> length data" using pv by blast+
    show ?thesis
    proof (cases "iRead \<ge> length data")
      case True
      with pi have "p = length data" by simp
      with less.prems(2) len have "cfinal L data st" by (simp add: cinv_cfinal)
      with True show ?thesis unfolding AfterRun by (subst collectRuns.simps) simp
    next
      case False
      have "pointInv data (AfterAnchor (data ! iRead) (iRead + 1)) p"
        using pi False by simp
      then have "cfinal L data (collectRuns data (AfterAnchor (data ! iRead) (iRead + 1)) st)"
        using less.prems(2) len by (rule less.hyps [rotated]) (use False in \<open>simp add: AfterRun\<close>)
      with False show ?thesis unfolding AfterRun by (subst collectRuns.simps) simp
    qed
  next
    case (AfterAnchor anchor iRead)
    note pv = less.prems(1) [unfolded AfterAnchor pointInv.simps]
    have pi: "iRead = p + 1" "iRead \<le> length data" "anchor = data ! p"
      using pv by blast+
    show ?thesis
    proof (cases "iRead \<ge> length data")
      case True
      with pi have "p + 1 = length data" by simp
      with less.prems(2) len have "cfinal L data (closeLastByte st)"
        by (intro closeLastByte_cfinal)
      with True show ?thesis unfolding AfterAnchor by (subst collectRuns.simps) simp
    next
      case False
      have "pointInv data (LoopTop anchor (data ! iRead) (iRead + 1)) p"
        using pi False by simp
      then have "cfinal L data (collectRuns data (LoopTop anchor (data ! iRead) (iRead + 1)) st)"
        using less.prems(2) len
        by (rule less.hyps [rotated]) (use False in \<open>simp add: AfterAnchor\<close>)
      with False show ?thesis unfolding AfterAnchor by (subst collectRuns.simps) simp
    qed
  qed
qed

section \<open>The stack-based encoder: the second phase and the whole\<close>

text \<open>
  \<open>encodeRuns S data ofs\<close> is what the second phase is expected to write for the
  headers \<open>S\<close> (oldest first) when the next unread input byte is \<open>data[ofs]\<close>: a
  replicate header is followed by one byte of the input, a literal header by the bytes
  it counts. The lemmas below show that \<^verbatim>\<open>writeRuns\<close> writes exactly these bytes
  without running out of the buffer, that they decode to the input, and that there are
  at most twice as many of them as input bytes.
\<close>

fun encodeRuns :: "byte list \<Rightarrow> byte list \<Rightarrow> nat \<Rightarrow> byte list" where
  "encodeRuns [] data ofs = []"
| "encodeRuns (h # S) data ofs =
     (if 128 < unat h then [h, u8_at data ofs] else h # take (unat h + 1) (drop ofs data))
     @ encodeRuns S data (ofs + runLen h)"

lemma noop_header_iff: "(h :: byte) = 128 \<longleftrightarrow> unat h = 128"
  unfolding word_unat_eq_iff by simp

lemma literal_or_replicate: "(h :: byte) \<noteq> 128 \<Longrightarrow> \<not> 128 < unat h \<Longrightarrow> unat h < 128"
  unfolding noop_header_iff by arith

lemma written_app: "written (xs @ ys) = written xs + written ys"
  by (simp add: written_def)

lemma consumed_app: "consumed (xs @ ys) = consumed xs + consumed ys"
  by (simp add: consumed_def)

lemma written_take_mono: "a \<le> b \<Longrightarrow> written (take a S) \<le> written (take b S)"
proof -
  assume "a \<le> b"
  then have "take b S = take a S @ take (b - a) (drop a S)"
    by (metis le_add_diff_inverse take_add)
  then show ?thesis by (simp add: written_app)
qed

lemma consumed_take_le: "consumed (take a S) \<le> consumed S"
proof -
  have "consumed S = consumed (take a S @ drop a S)" by simp
  then show ?thesis unfolding consumed_app by simp
qed

lemma take_Suc_stack: "i < length S \<Longrightarrow> take (i + 1) S = take i S @ [S ! i]"
  by (simp add: take_Suc_conv_app_nth)

lemma nth_foldl_put_above:
  assumes "snd s + length vs \<le> q" "q < length (fst s)"
  shows "fst (foldl put s vs) ! q = fst s ! q"
proof -
  obtain res w where s: "s = (res, w)" by (cases s)
  have q: "w + length vs \<le> q" "q < length res" using assms by (simp_all add: s)
  then have le: "w + length vs \<le> length res" by simp
  define pre where "pre = take w res @ vs"
  have lp: "length pre = w + length vs" using le by (simp add: pre_def)
  have "fst (foldl put (res, w) vs) = pre @ drop (w + length vs) res"
    using fst_foldl_put [OF le] by (simp add: pre_def)
  then have "fst (foldl put (res, w) vs) ! q = (pre @ drop (w + length vs) res) ! q" by simp
  also have "\<dots> = drop (w + length vs) res ! (q - (w + length vs))"
    using q(1) by (simp add: nth_append lp)
  also have "\<dots> = res ! q" using q by simp
  finally show ?thesis by (simp add: s)
qed

lemma length_encodeRuns:
  "128 \<notin> set S \<Longrightarrow> ofs + consumed S \<le> length data \<Longrightarrow>
   length (encodeRuns S data ofs) = written S"
proof (induction S arbitrary: ofs)
  case Nil
  show ?case by (simp add: written_def)
next
  case (Cons h S)
  have c: "consumed (h # S) = runLen h + consumed S" by (simp add: consumed_def)
  have w: "written (h # S) = outLen h + written S" by (simp add: written_def)
  have IH: "length (encodeRuns S data (ofs + runLen h)) = written S"
    using Cons.prems by (intro Cons.IH) (simp_all add: c)
  show ?case
  proof (cases "128 < unat h")
    case True
    then show ?thesis by (simp add: IH w outLen_def)
  next
    case False
    from Cons.prems(1) have "h \<noteq> 128" by auto
    then have lt: "unat h < 128" using False by (rule literal_or_replicate)
    then have "ofs + (unat h + 1) \<le> length data" using Cons.prems(2) by (simp add: c runLen_def)
    with lt show ?thesis by (simp add: IH w outLen_def)
  qed
qed


text \<open>
  The second phase. With the headers \<open>S\<close> on the stack, the first \<open>i\<close> of them
  already written out, \<^verbatim>\<open>writeRuns\<close> returns normally (no copy overruns the buffer,
  no header is overwritten before it is read) and has written \<open>encodeRuns\<close> of the
  remaining headers.
\<close>

lemma writeRuns_done:
  "\<not> iStackEnd < iStackRead \<Longrightarrow> writeRuns data iStackEnd iRead iStackRead s = Inr s"
  by (subst writeRuns.simps) simp

lemma writeRuns_step:
  assumes "iStackEnd < iStackRead" "ta_read (fst s) iStackRead = Some h" "h \<noteq> 128"
    "iRead + runLen h \<le> length data" "snd s + outLen h \<le> length (fst s)"
  shows "writeRuns data iStackEnd iRead iStackRead s
         = writeRuns data iStackEnd (iRead + runLen h) (iStackRead - 1)
             (foldl put s (encodeRuns [h] data iRead))"
proof (cases "128 < unat h")
  case True
  then have e: "encodeRuns [h] data iRead = [h, u8_at data iRead]" "runLen h = 257 - unat h"
    by (simp_all add: runLen_def)
  show ?thesis
    unfolding e using assms(1,2) True by (subst writeRuns.simps) (simp add: Let_def)
next
  case False
  with assms(3) have lt: "unat h < 128" by (rule literal_or_replicate)
  define rl where "rl = unat h + 1"
  define lits where "lits = take rl (drop iRead data)"
  have e: "encodeRuns [h] data iRead = h # lits" "runLen h = rl" "outLen h = rl + 1"
    using lt by (simp_all add: runLen_def outLen_def rl_def lits_def)
  have le: "iRead + rl \<le> length data" using assms(4) unfolding e .
  have ll: "length lits = rl" using le by (simp add: lits_def)
  define s1 where "s1 = put s h"
  have s1: "snd s1 = snd s + 1" "length (fst s1) = length (fst s)"
    by (simp_all add: s1_def put_def case_prod_beta)
  have fits: "snd s1 + length lits \<le> length (fst s1)" using assms(5) by (simp add: s1 ll e)
  have sub: "subarray data iRead (iRead + rl) = lits" by (simp add: subarray_def lits_def)
  have st: "ta_set (fst s1) lits (snd s1) = Inr (fst (foldl put s1 lits))"
    using ta_set_foldl [OF fits] by simp
  have pr: "(fst (foldl put s1 lits), snd s1 + rl) = foldl put s1 lits"
    using pair_foldl_put [of s1 lits] by (simp add: ll)
  have wl: "writeLiteral data iRead rl 0 s1 = foldl put s1 lits"
    by (simp only: writeLiteral_foldl add_0_right map_u8_at [OF le] lits_def)
  have f: "foldl put s (h # lits) = foldl put s1 lits" by (simp add: s1_def)
  show ?thesis
    unfolding e f
    using assms(1,2) lt sub st pr wl unfolding rl_def
    by (subst writeRuns.simps) (simp add: Let_def s1_def [symmetric])
qed

lemma writeRuns_ok:
  assumes S: "128 \<notin> set S" "consumed S \<le> length data"
    and room: "\<forall>j. j < length S \<longrightarrow> written (take j S) + j + 1 \<le> L" "written S \<le> L"
  shows "i \<le> length S \<Longrightarrow> length (fst s) = L \<Longrightarrow>
     (\<forall>j. i \<le> j \<and> j < length S \<longrightarrow> fst s ! (L - 1 - j) = S ! j) \<Longrightarrow>
     snd s = written (take i S) \<Longrightarrow>
     writeRuns data (int L - 1 - int (length S)) (consumed (take i S)) (int L - 1 - int i) s
       = Inr (foldl put s (encodeRuns (drop i S) data (consumed (take i S))))"
proof (induction "length S - i" arbitrary: i s rule: less_induct)
  case less
  show ?case
  proof (cases "i < length S")
    case False
    with less.prems(1) have "i = length S" by simp
    then show ?thesis by (simp add: writeRuns_done)
  next
    case True
    define h where "h = S ! i"
    define iRead where "iRead = consumed (take i S)"
    have iL: "written (take i S) + i + 1 \<le> L" using room(1) True by blast
    have hne: "h \<noteq> 128" using S(1) True unfolding h_def by (metis nth_mem)
    have d: "drop i S = h # drop (i + 1) S" using True by (simp add: h_def Cons_nth_drop_Suc)
    have tk: "take (i + 1) S = take i S @ [h]" unfolding h_def using True by (rule take_Suc_stack)
    have c1: "consumed (take (i + 1) S) = iRead + runLen h"
      unfolding tk by (simp add: consumed_app consumed_def iRead_def)
    have w1: "written (take (i + 1) S) = snd s + outLen h"
      unfolding tk by (simp add: written_app written_def less.prems(4))
    have cl: "iRead + runLen h \<le> length data"
      using consumed_take_le [of "i + 1" S] S(2) unfolding c1 by simp
    have wL: "snd s + outLen h \<le> L"
    proof (cases "i + 1 < length S")
      case True
      with room(1) have "written (take (i + 1) S) + (i + 1) + 1 \<le> L" by blast
      then show ?thesis unfolding w1 by simp
    next
      case False
      with True have "take (i + 1) S = S" by simp
      with room(2) w1 show ?thesis by simp
    qed
    have rd: "ta_read (fst s) (int L - 1 - int i) = Some h"
    proof -
      have "nat (int L - 1 - int i) = L - 1 - i" using iL by simp
      moreover have "fst s ! (L - 1 - i) = h" using less.prems(3) True by (simp add: h_def)
      ultimately show ?thesis using iL less.prems(2) by (simp add: ta_read_def)
    qed
    define vs where "vs = encodeRuns [h] data iRead"
    define s' where "s' = foldl put s vs"
    have lv: "length vs = outLen h"
      unfolding vs_def
    proof (rule trans [OF length_encodeRuns])
      show "128 \<notin> set [h]" using hne by simp
      show "iRead + consumed [h] \<le> length data" using cl by (simp add: consumed_def)
      show "written [h] = outLen h" by (simp add: written_def)
    qed
    have step: "writeRuns data (int L - 1 - int (length S)) iRead (int L - 1 - int i) s
        = writeRuns data (int L - 1 - int (length S)) (iRead + runLen h)
            (int L - 1 - int i - 1) s'"
      unfolding s'_def vs_def
      by (rule writeRuns_step) (use True rd hne cl wL less.prems(2) in simp_all)
    have cells: "\<forall>j. i + 1 \<le> j \<and> j < length S \<longrightarrow> fst s' ! (L - 1 - j) = S ! j"
    proof (intro allI impI)
      fix j assume j: "i + 1 \<le> j \<and> j < length S"
      then have "written (take (i + 1) S) \<le> written (take j S)" by (intro written_take_mono) simp
      moreover have "written (take j S) + j + 1 \<le> L" using room(1) j by blast
      ultimately have "snd s + length vs \<le> L - 1 - j" unfolding w1 lv by arith
      moreover have "L - 1 - j < length (fst s)" using less.prems(2) iL by arith
      ultimately have "fst s' ! (L - 1 - j) = fst s ! (L - 1 - j)"
        unfolding s'_def by (rule nth_foldl_put_above)
      with less.prems(3) j show "fst s' ! (L - 1 - j) = S ! j" by simp
    qed
    have IH: "writeRuns data (int L - 1 - int (length S)) (consumed (take (i + 1) S))
          (int L - 1 - int (i + 1)) s'
        = Inr (foldl put s' (encodeRuns (drop (i + 1) S) data (consumed (take (i + 1) S))))"
    proof (rule less.hyps)
      show "length S - (i + 1) < length S - i" using True by simp
      show "i + 1 \<le> length S" using True by simp
      show "length (fst s') = L" by (simp add: s'_def length_foldl_put less.prems(2))
      show "\<forall>j. i + 1 \<le> j \<and> j < length S \<longrightarrow> fst s' ! (L - 1 - j) = S ! j" by (rule cells)
      show "snd s' = written (take (i + 1) S)" unfolding w1 by (simp add: s'_def snd_foldl_put lv)
    qed
    have ix: "int L - 1 - int i - 1 = int L - 1 - int (i + 1)" by simp
    have en: "encodeRuns (drop i S) data iRead = vs @ encodeRuns (drop (i + 1) S) data (iRead + runLen h)"
      unfolding d vs_def by simp
    have "writeRuns data (int L - 1 - int (length S)) iRead (int L - 1 - int i) s
        = writeRuns data (int L - 1 - int (length S)) (iRead + runLen h)
            (int L - 1 - int (i + 1)) s'"
      using step unfolding ix .
    also have "\<dots> = Inr (foldl put s' (encodeRuns (drop (i + 1) S) data (iRead + runLen h)))"
      using IH unfolding c1 .
    also have "foldl put s' (encodeRuns (drop (i + 1) S) data (iRead + runLen h))
        = foldl put s (encodeRuns (drop i S) data iRead)"
      unfolding en s'_def by simp
    finally show ?thesis unfolding iRead_def .
  qed
qed


lemma outLen_le: "h \<noteq> 128 \<Longrightarrow> outLen h \<le> 2 * runLen h"
  using unsigned_less [of h, where 'a = nat] by (auto simp: outLen_def runLen_def)

lemma written_le: "128 \<notin> set S \<Longrightarrow> written S \<le> 2 * consumed S"
proof (induction S)
  case Nil
  show ?case by (simp add: written_def)
next
  case (Cons h S)
  then have "outLen h \<le> 2 * runLen h" "written S \<le> 2 * consumed S"
    by (auto intro: outLen_le)
  then show ?case by (simp add: written_def consumed_def)
qed

text \<open>
  What the second phase writes decodes to the input bytes the headers cover.
\<close>

lemma unpack_encodeRuns:
  "128 \<notin> set S \<Longrightarrow> ofs + consumed S \<le> length data \<Longrightarrow> runsMatch S data ofs \<Longrightarrow>
   unpack False (encodeRuns S data ofs) = Some (take (consumed S) (drop ofs data))"
proof (induction S arbitrary: ofs)
  case Nil
  show ?case by (simp add: consumed_def)
next
  case (Cons h S)
  define k where "k = runLen h"
  have c: "consumed (h # S) = k + consumed S" by (simp add: consumed_def k_def)
  have hne: "h \<noteq> 128" using Cons.prems(1) by auto
  have kpos: "1 \<le> k" unfolding k_def by (rule runLen_pos)
  have le: "ofs + k \<le> length data" using Cons.prems(2) unfolding c by simp
  have IH: "unpack False (encodeRuns S data (ofs + k))
            = Some (take (consumed S) (drop (ofs + k) data))"
    unfolding k_def
    by (rule Cons.IH) (use Cons.prems in \<open>simp_all add: c k_def [symmetric]\<close>)
  have tk: "take (k + consumed S) (drop ofs data)
            = take k (drop ofs data) @ take (consumed S) (drop (ofs + k) data)"
    by (simp add: take_add add.commute)
  show ?case
  proof (cases "128 < unat h")
    case True
    have kk: "unat h = 257 - k" "2 \<le> k" "k \<le> 128"
      using True unsigned_less [of h, where 'a = nat] by (simp_all add: k_def runLen_def)
    have m: "\<forall>j. ofs \<le> j \<and> j < ofs + k \<longrightarrow> data ! j = data ! ofs"
    proof (intro allI impI)
      fix j assume j: "ofs \<le> j \<and> j < ofs + k"
      then have "j - ofs < 257 - unat h" using kk by arith
      with Cons.prems(3) True have "data ! (ofs + (j - ofs)) = data ! ofs" by simp
      with j show "data ! j = data ! ofs" by simp
    qed
    have rp: "drop ofs data = replicate k (data ! ofs) @ drop (ofs + k) data"
      using le m by (rule run_replicate)
    then have "take k (drop ofs data) = replicate k (data ! ofs)" by simp
    moreover have "u8_at data ofs = data ! ofs" using le kpos by (simp add: u8_at_def)
    moreover have "unpack False (h # data ! ofs # encodeRuns S data (ofs + k))
        = map_option (\<lambda>out. replicate k (data ! ofs) @ out)
            (unpack False (encodeRuns S data (ofs + k)))"
      using kk by (rule unpack_repeat_gen)
    ultimately show ?thesis
      unfolding c tk using True by (simp add: IH k_def [symmetric])
  next
    case False
    with hne have lt: "unat h < 128" by (rule literal_or_replicate)
    define lits where "lits = take k (drop ofs data)"
    have kk: "unat h = k - 1" "1 \<le> k" "k \<le> 128" "k = unat h + 1"
      using lt by (simp_all add: k_def runLen_def)
    have ll: "length lits = k" using le by (simp add: lits_def)
    have en: "encodeRuns (h # S) data ofs = h # lits @ encodeRuns S data (ofs + k)"
      unfolding lits_def k_def using lt by (simp add: runLen_def)
    have u: "unpack False (h # lits @ encodeRuns S data (ofs + k))
        = map_option (\<lambda>out. lits @ out) (unpack False (encodeRuns S data (ofs + k)))"
      using kk(1-3) ll by (rule unpack_literal_gen)
    have "unpack False (encodeRuns (h # S) data ofs)
          = map_option (\<lambda>out. lits @ out) (Some (take (consumed S) (drop (ofs + k) data)))"
      unfolding en u IH ..
    then show ?thesis unfolding c tk lits_def by simp
  qed
qed

text \<open>
  The room the invariant of the first phase leaves: in a buffer of at least
  \<open>(3 * n + 1) div 2\<close> cells the output written so far never reaches the header that is
  read next.
\<close>

lemma roomy_room:
  assumes "roomy S" "consumed S \<le> n" "(3 * n + 1) div 2 \<le> L"
  shows "\<forall>j. j < length S \<longrightarrow> written (take j S) + j + 1 \<le> L"
proof (intro allI impI)
  fix j assume j: "j < length S"
  have r: "1 \<le> phi (take j S) + 3 * int (runLen (S ! j))" using assms(1) j by (simp add: roomy_def)
  have "consumed (take (j + 1) S) = consumed (take j S) + runLen (S ! j)"
    unfolding take_Suc_stack [OF j] by (simp add: consumed_app consumed_def)
  with consumed_take_le [of "j + 1" S] assms(2)
  have c: "consumed (take j S) + runLen (S ! j) \<le> n" by simp
  have p: "phi (take j S) = 3 * int (consumed (take j S)) - 2 * int (written (take j S) + j)"
    using j by (simp add: phi_def)
  from r c have "2 * (written (take j S) + j) + 1 \<le> 3 * n" unfolding p by arith
  with assms(3) show "written (take j S) + j + 1 \<le> L" by arith
qed

lemma fin_room:
  assumes "fin S" "consumed S \<le> n" "(3 * n + 1) div 2 \<le> L"
  shows "written S \<le> L"
proof -
  have "- 3 \<le> phi S" "1 \<le> length S" using assms(1) by (auto simp: fin_def Suc_le_eq)
  then have "2 * written S \<le> 3 * consumed S + 1" unfolding phi_def by arith
  with assms(2,3) show ?thesis by arith
qed

lemma stackOf_nth:
  assumes "binv L st" "j < length (stackOf st)"
  shows "buffer st ! (L - 1 - j) = stackOf st ! j"
proof -
  define q where "q = nat (iStack st + 1)"
  have L: "length (buffer st) = L" using assms(1) by (simp add: binv_def)
  have len: "length (stackOf st) = L - q" by (simp add: stackOf_def q_def L)
  with assms(2) have j: "j < L - q" by simp
  have "stackOf st ! j = drop q (buffer st) ! (length (drop q (buffer st)) - Suc j)"
    unfolding stackOf_def q_def [symmetric] using j by (intro rev_nth) (simp add: L)
  also have "\<dots> = buffer st ! (q + (L - q - Suc j))" using j by (simp add: L)
  also have "q + (L - q - Suc j) = L - 1 - j" using j by arith
  finally show ?thesis by simp
qed


lemma minBufferLength_ceiling:
  "3 * length data \<le> 2 * minBufferLength data \<and> 2 * minBufferLength data \<le> 3 * length data + 1"
  unfolding minBufferLength_def by arith

lemma ainv_Nil: "ainv [] 0"
  by (simp add: ainv_def phi_Nil roomy_def)

text \<open>
  The encoder as a whole: with a buffer of at least \<open>minBufferLength data\<close> cells it
  returns an output that decodes to the input and is at most twice as long.
\<close>

lemma compress_buf_long:
  assumes big: "minBufferLength data \<le> length buf" and n2: "2 \<le> length data"
  shows "\<exists>out. compress_buf data (Some buf) = Inr out \<and> unpack False out = Some data
               \<and> length out \<le> 2 * length data"
proof -
  define L where "L = length buf"
  define st0 where "st0 = \<lparr>buffer = buf, iStack = int L - 1, countLastLiteral = 0\<rparr>"
  define st where "st = collectRuns data (LoopTop (data ! 0) (data ! 1) 2) st0"
  define S where "S = stackOf st"
  define E where "E = encodeRuns S data 0"
  have mb: "(3 * length data + 1) div 2 \<le> L" using big by (simp add: minBufferLength_def L_def)
  then have lenL: "length data < L" using n2 by arith
  have s0: "stackOf st0 = []" by (simp add: stackOf_def st0_def L_def)
  have "binv L st0" using lenL by (simp add: binv_def st0_def L_def)
  then have c0: "cinv L data st0 0"
    unfolding cinv_def s0 by (simp add: st0_def ainv_Nil consumed_def)
  have p0: "pointInv data (LoopTop (data ! 0) (data ! 1) 2) 0" using n2 by simp
  have cf: "cfinal L data st"
    unfolding st_def using p0 c0 lenL by (rule collectRuns_cfinal) (use n2 in arith)
  then have b: "binv L st" and f: "fin S" and cs: "consumed S = length data"
    and rm: "runsMatch S data 0"
    by (simp_all add: cfinal_def S_def)
  from f have nn: "128 \<notin> set S" "roomy S" by (simp_all add: fin_def)
  have room1: "\<forall>j. j < length S \<longrightarrow> written (take j S) + j + 1 \<le> L"
    using nn(2) _ mb by (rule roomy_room) (simp add: cs)
  have room2: "written S \<le> L" using f _ mb by (rule fin_room) (simp add: cs)
  have ist: "iStack st = int L - 1 - int (length S)"
    using length_stackOf [OF b] by (simp add: S_def)
  have bl: "length (buffer st) = L" using b by (simp add: binv_def)
  have "writeRuns data (int L - 1 - int (length S)) (consumed (take 0 S)) (int L - 1 - int 0)
          (buffer st, 0)
        = Inr (foldl put (buffer st, 0) (encodeRuns (drop 0 S) data (consumed (take 0 S))))"
  proof (rule writeRuns_ok [OF nn(1) _ room1 room2])
    show "consumed S \<le> length data" by (simp add: cs)
    show "0 \<le> length S" by simp
    show "length (fst (buffer st, 0)) = L" by (simp add: bl)
    show "\<forall>j. 0 \<le> j \<and> j < length S \<longrightarrow> fst (buffer st, 0) ! (L - 1 - j) = S ! j"
      using stackOf_nth [OF b] by (simp add: S_def)
    show "snd (buffer st, 0 :: nat) = written (take 0 S)" by (simp add: written_def)
  qed
  then have wr: "writeRuns data (iStack st) 0 (int L - 1) (buffer st, 0)
                 = Inr (foldl put (buffer st, 0) E)"
    unfolding ist E_def by (simp add: consumed_def)
  have lE: "length E = written S"
    unfolding E_def by (rule length_encodeRuns [OF nn(1)]) (simp add: cs)
  then have fits: "0 + length E \<le> length (buffer st)" using room2 by (simp add: bl)
  have "fst (foldl put (buffer st, 0) E) = E @ drop (length E) (buffer st)"
    using fst_foldl_put [OF fits] by simp
  then have tk: "take (snd (foldl put (buffer st, 0) E)) (fst (foldl put (buffer st, 0) E)) = E"
    by (simp add: snd_foldl_put)
  have "compress_buf data (Some buf)
        = (case writeRuns data (iStack st) 0 (int L - 1) (buffer st, 0) of
             Inl e \<Rightarrow> Inl e | Inr s \<Rightarrow> Inr (take (snd s) (fst s)))"
    unfolding st_def st0_def L_def using big n2 by (auto simp add: compress_buf_def Let_def)
  then have res: "compress_buf data (Some buf) = Inr E"
    unfolding wr by (simp add: tk)
  have "unpack False E = Some (take (consumed S) (drop 0 data))"
    unfolding E_def by (rule unpack_encodeRuns [OF nn(1) _ rm]) (simp add: cs)
  then have un: "unpack False E = Some data" by (simp add: cs)
  have "length E \<le> 2 * length data" using written_le [OF nn(1)] by (simp add: lE cs)
  with res un show ?thesis by blast
qed

lemma compress_buf_short:
  assumes big: "minBufferLength data \<le> length buf" and n2: "length data < 2"
  shows "\<exists>out. compress_buf data (Some buf) = Inr out \<and> unpack False out = Some data
               \<and> length out \<le> 2 * length data"
proof (cases "length data = 0")
  case True
  then show ?thesis by (simp add: compress_buf_def minBufferLength_def)
next
  case False
  with n2 have n1: "length data = 1" by arith
  then obtain d where d: "data = [d]" by (cases data) auto
  from big n1 have "2 \<le> length buf" by (simp add: minBufferLength_def)
  then obtain a b rest where buf: "buf = a # b # rest"
    by (cases buf; cases "tl buf") auto
  show ?thesis by (simp add: compress_buf_def minBufferLength_def d buf)
qed

lemma compress_buf_succeeds:
  assumes "minBufferLength data \<le> length buf"
  shows "\<exists>out. compress_buf data (Some buf) = Inr out \<and> unpack False out = Some data
               \<and> length out \<le> 2 * length data"
  using compress_buf_long [OF assms] compress_buf_short [OF assms]
  by (cases "2 \<le> length data") auto

lemma compress_buf_None:
  "compress_buf data None = compress_buf data (Some (replicate (minBufferLength data) 0))"
  by (simp add: compress_buf_def)

lemma compress_buf_fails:
  "length buf < minBufferLength data \<Longrightarrow> compress_buf data (Some buf) = Inl BufferTooSmall"
  by (simp add: compress_buf_def)

section \<open>The claims\<close>

text \<open>
  C1. Round trip: for every byte sequence, the empty one included, decompressing what
  \<^verbatim>\<open>compress\<close> returns gives the sequence back. It holds for the encoder of
  \<^verbatim>\<open>src/mod.ts\<close> and for the context-aware encoder, each followed by the decoder
  that both modules share.
\<close>

theorem roundtrip:
  "decompress (compress data) = Inr data \<and> decompress (compress_ctx data) = Inr data"
proof
  show "decompress (compress data) = Inr data"
    using compress_chunk [of data] by (simp add: decompress_unpack)
  show "decompress (compress_ctx data) = Inr data"
    using chunk_unpack [OF compress_ctx_chunk [of data]] by (simp add: decompress_unpack)
qed

theorem roundtrip_witness:
  "decompress (compress [1, 2, 2, 3]) = Inr [1, 2, 2, 3]
   \<and> decompress (compress_ctx [1, 2, 2, 3]) = Inr [1, 2, 2, 3]"
  by (rule roundtrip)

text \<open>
  C2. The claim: \<^verbatim>\<open>decompress\<close> fails with \<open>Truncated\<close> exactly when some header
  declares a run whose payload is not fully present. The decoder of \<^verbatim>\<open>src/mod.ts\<close>
  also fails on the input \<open>[0x00, 0x41, 0x80]\<close>, a complete literal run followed by a
  no-op header, where no run is truncated: its size pass refuses any header that is the
  last byte, before it looks at the header.
\<close>

theorem decompress_fails_without_truncated_run:
  "decompress [0x00, 0x41, 0x80] = Inl Truncated \<and> \<not> truncatedRun [0x00, 0x41, 0x80]"
  by (simp add: decompress_unpack)

text \<open>
  The decoder of the stack-based module does what the claim says: it fails exactly on a
  truncated run, always with \<open>Truncated\<close>, and a failure is a value without output.
\<close>

lemma decompress_buf_truncated_iff: "decompress_buf data = Inl Truncated \<longleftrightarrow> truncatedRun data"
  by (simp add: decompress_buf_unpack unpack_None_iff [symmetric] split: option.splits)

lemma decompress_buf_fails_iff: "(\<exists>e. decompress_buf data = Inl e) \<longleftrightarrow> truncatedRun data"
  by (simp add: decompress_buf_unpack unpack_None_iff [symmetric] split: option.splits)

text \<open>
  C3. The claim: the decoder accepts the header 128 at any position, also as the last
  byte of the input. The decoder of \<^verbatim>\<open>src/mod.ts\<close> rejects the input \<open>[0x80]\<close>.
\<close>

theorem decompress_rejects_final_noop: "decompress [0x80] = Inl Truncated"
  by (simp add: decompress_unpack)

text \<open>
  The decoder of the stack-based module accepts it, and a no-op header between whole
  runs changes nothing there.
\<close>

lemma decompress_buf_accepts_final_noop: "decompress_buf [0x80] = Inr []"
  by (simp add: decompress_buf_unpack)

lemma decompress_buf_skips_noop: "decompress_buf (0x80 # packed) = decompress_buf packed"
  by (simp add: decompress_buf_unpack)

text \<open>
  C5. The context-aware encoder maps \<open>[0x54, 0xAA, 0xAA, 0x80, 0x00]\<close> to
  \<open>[0x04, 0x54, 0xAA, 0xAA, 0x80, 0x00]\<close>: the repeat of length 2 is absorbed into the
  literal run around it. The stack-based encoder returns the same bytes.
\<close>

theorem compress_ctx_absorbs_pair:
  "compress_ctx [0x54, 0xAA, 0xAA, 0x80, 0x00] = [0x04, 0x54, 0xAA, 0xAA, 0x80, 0x00]
   \<and> compress_buf [0x54, 0xAA, 0xAA, 0x80, 0x00] None = Inr [0x04, 0x54, 0xAA, 0xAA, 0x80, 0x00]"
  by code_simp

text \<open>
  The boundary-only encoder of \<^verbatim>\<open>src/mod.ts\<close> writes the same repeat as a run of
  its own.
\<close>

lemma compress_boundary_only_pair:
  "compress [0x54, 0xAA, 0xAA, 0x80, 0x00] = [0x00, 0x54, 0xFF, 0xAA, 0x01, 0x80, 0x00]"
  by code_simp

text \<open>
  C6. No header in the output of \<^verbatim>\<open>compress\<close> is 128, for either list-free encoder:
  every header the reference reading meets is a literal or a replicate header.
\<close>

theorem compress_no_noop_header:
  "128 \<notin> set (headers (compress data)) \<and> 128 \<notin> set (headers (compress_ctx data))"
  using compress_chunk [of data] compress_ctx_chunk [of data] by (simp add: chunk_def)

theorem compress_no_noop_header_witness:
  "128 \<notin> set (headers (compress [1, 2, 2, 3])) \<and> 128 \<notin> set (headers (compress_ctx [1, 2, 2, 3]))"
  by (rule compress_no_noop_header)

text \<open>
  C10. Both decoders accept the empty packed sequence and return the empty sequence.
\<close>

theorem decompress_empty: "decompress [] = Inr [] \<and> decompress_buf [] = Inr []"
  by (simp add: decompress_unpack decompress_buf_unpack)

text \<open>
  C7. For every byte \<open>b\<close>, 128 copies of \<open>b\<close> are encoded as the two bytes
  \<open>[0x81, b]\<close>, and 129 copies as that replicate run of 128 followed by a literal run
  of the one remaining byte. Both list-free encoders agree.
\<close>

theorem run_of_128_and_129:
  "compress (replicate 128 b) = [0x81, b] \<and> compress (replicate 129 b) = [0x81, b, 0x00, b]
   \<and> compress_ctx (replicate 128 b) = [0x81, b]
   \<and> compress_ctx (replicate 129 b) = [0x81, b, 0x00, b]"
  by (simp only: compress_replicate_128 compress_replicate_129
        compress_ctx_replicate_128 compress_ctx_replicate_129 simp_thms)


theorem run_of_128_and_129_witness:
  "compress (replicate 128 0x2A) = [0x81, 0x2A]
   \<and> compress (replicate 129 0x2A) = [0x81, 0x2A, 0x00, 0x2A]
   \<and> compress_ctx (replicate 128 0x2A) = [0x81, 0x2A]
   \<and> compress_ctx (replicate 129 0x2A) = [0x81, 0x2A, 0x00, 0x2A]"
  by (rule run_of_128_and_129)

text \<open>
  C4. The claim: for every input the output of the context-aware encoder is at most as
  long as the output of the boundary-only encoder. It fails on 127 distinct bytes
  followed by a pair: the context-aware encoder fills its literal run to 128 bytes with
  the first byte of the pair and spends a second literal run on the other byte
  (131 bytes), the boundary-only encoder writes a literal run of 127 and a replicate run
  (130 bytes).
\<close>

theorem ctx_longer_than_boundary_only:
  "length (compress (map of_nat [0..<127] @ [200, 200]))
     < length (compress_ctx (map of_nat [0..<127] @ [200, 200]))"
  by code_simp

text \<open>
  C4, amended: for every input the output of the context-aware encoder is at most as
  long as the output of the boundary-only encoder plus one byte for each pair it splits
  at the cap of a literal run; on every input where it splits no pair, its output is
  at most as long as the output of the boundary-only encoder.
\<close>

theorem ctx_le_boundary_only_unless_split:
  "length (compress_ctx data) \<le> length (compress data) + splitPairs data
   \<and> (splitPairs data = 0 \<longrightarrow> length (compress_ctx data) \<le> length (compress data))"
  using ctx_le_boundary_only_gen [of 0 data 128 128]
  by (simp add: length_compress length_compress_ctx clenLit_full mlenLit_full slenLit_full
        splitPairs_def)

theorem ctx_le_boundary_only_unless_split_witness:
  "splitPairs (map of_nat [0..<126] @ [200, 200, 7]) = 0
   \<and> length (compress_ctx (map of_nat [0..<126] @ [200, 200, 7]))
       \<le> length (compress (map of_nat [0..<126] @ [200, 200, 7]))"
  using ctx_le_boundary_only_unless_split [of "map of_nat [0..<126] @ [200, 200, 7]"]
    splitPairs_pair_fits
  by blast

text \<open>
  C8. For every input the output of \<^verbatim>\<open>compress\<close> is at most twice as long as the
  input: for the encoder of \<^verbatim>\<open>src/mod.ts\<close>, for the context-aware encoder, and for
  the stack-based encoder called without a buffer (which then returns an output).
\<close>

theorem compress_at_most_twice:
  "length (compress data) \<le> 2 * length data \<and> length (compress_ctx data) \<le> 2 * length data
   \<and> (\<exists>out. compress_buf data None = Inr out \<and> length out \<le> 2 * length data)"
proof -
  have "\<exists>out. compress_buf data None = Inr out \<and> length out \<le> 2 * length data"
    unfolding compress_buf_None
    using compress_buf_succeeds [of data "replicate (minBufferLength data) 0"] by auto
  then show ?thesis
    using compress_chunk [of data] compress_ctx_chunk [of data] by (simp add: chunk_def)
qed

theorem compress_at_most_twice_witness:
  "length (compress [1, 2, 2, 3]) \<le> 2 * length [1, 2, 2, 3 :: byte]
   \<and> length (compress_ctx [1, 2, 2, 3]) \<le> 2 * length [1, 2, 2, 3 :: byte]
   \<and> (\<exists>out. compress_buf [1, 2, 2, 3] None = Inr out \<and> length out \<le> 2 * length [1, 2, 2, 3 :: byte])"
  by (rule compress_at_most_twice)

text \<open>
  C9. With a caller-supplied buffer the stack-based \<^verbatim>\<open>compress\<close> fails with
  \<open>BufferTooSmall\<close> exactly when the buffer is shorter than
  \<open>\<lceil>1.5 \<times> length data\<rceil>\<close> (\<open>minBufferLength\<close>), it fails in no other case, and with
  a buffer of at least that length it returns an output that the decoder of the same
  module turns back into the input.
\<close>

theorem compress_buf_too_small_iff:
  "(compress_buf data (Some buf) = Inl BufferTooSmall \<longleftrightarrow> length buf < minBufferLength data)
   \<and> ((\<exists>e. compress_buf data (Some buf) = Inl e) \<longleftrightarrow> length buf < minBufferLength data)
   \<and> (minBufferLength data \<le> length buf \<longrightarrow>
        (\<exists>out. compress_buf data (Some buf) = Inr out \<and> decompress_buf out = Inr data))"
proof (cases "length buf < minBufferLength data")
  case True
  then show ?thesis by (simp add: compress_buf_fails)
next
  case False
  then have "minBufferLength data \<le> length buf" by simp
  from compress_buf_succeeds [OF this] obtain out where
    "compress_buf data (Some buf) = Inr out" "unpack False out = Some data" by blast
  with False show ?thesis by (simp add: decompress_buf_unpack)
qed

theorem compress_buf_too_small_iff_witness:
  "compress_buf [1, 2, 2, 3] (Some (replicate 5 0)) = Inl BufferTooSmall
   \<and> minBufferLength [1, 2, 2, 3] \<le> length (replicate 6 (0 :: byte))
   \<and> (\<exists>out. compress_buf [1, 2, 2, 3] (Some (replicate 6 0)) = Inr out
          \<and> decompress_buf out = Inr [1, 2, 2, 3])"
  using compress_buf_too_small_iff [of "[1, 2, 2, 3]" "replicate 5 0"]
    compress_buf_too_small_iff [of "[1, 2, 2, 3]" "replicate 6 0"]
  by (simp add: minBufferLength_def)

end
